theory Spec2Isabelle
  imports Main "HOL-Library.Word"
begin

section \<open>JavaScript values\<close>

text \<open>
  The decoder of \<^verbatim>\<open>binpat.ts\<close> runs on the JavaScript platform. This section models the
  part of the platform the decoder relies on: bytes, numbers, the values a decode can
  return, objects with their own-property order, \<^verbatim>\<open>slice\<close>, and \<^verbatim>\<open>DataView\<close>.

  Modelling conventions, used throughout:
  \<^item> a number that counts bytes, bits or elements (an offset, a size, a width) is a
    \<open>number\<close>: an integer, plus or minus infinity, NaN, or \<^verbatim>\<open>undefined\<close>, which is what a
    size function returns when it reads a field that is not there. Fractional numbers and
    the rounding of integers beyond \<open>2 ^ 53\<close> are not modelled;
  \<^item> a JavaScript string is a list of characters with 8-bit codes;
  \<^item> the functions a caller passes in (sizes, conditions, converters) are pure functions
    of the context: they return a result and change nothing;
  \<^item> an exception is a result \<open>Inl e\<close>, a normal return is \<open>Inr r\<close>;
  \<^item> the memory a decode needs is there: no allocation fails for want of memory.
\<close>

type_synonym byte = "8 word"

datatype endian = Big | Little

datatype error = RangeError | TypeError

subsection \<open>Numbers\<close>

text \<open>
  The numbers of the decoder, with \<^verbatim>\<open>undefined\<close> among them: the declared type of an offset
  or a size is \<^verbatim>\<open>number\<close>, and a size function such as \<^verbatim>\<open>(ctx) => ctx.data.n\<close> returns
  \<^verbatim>\<open>undefined\<close> when the field is missing.
\<close>

datatype number = Fin int | PosInf | NegInf | NaN | Undefined

text \<open>\<^verbatim>\<open>a + b\<close>: \<^verbatim>\<open>undefined\<close> converts to NaN, NaN gives NaN, and so do opposite
  infinities.\<close>

fun js_add :: "number \<Rightarrow> number \<Rightarrow> number" where
  "js_add (Fin a) (Fin b) = Fin (a + b)"
| "js_add (Fin a) PosInf = PosInf"
| "js_add (Fin a) NegInf = NegInf"
| "js_add PosInf (Fin b) = PosInf"
| "js_add PosInf PosInf = PosInf"
| "js_add NegInf (Fin b) = NegInf"
| "js_add NegInf NegInf = NegInf"
| "js_add a b = NaN"

text \<open>\<^verbatim>\<open>-b\<close> and \<^verbatim>\<open>a - b\<close>.\<close>

fun js_neg :: "number \<Rightarrow> number" where
  "js_neg (Fin a) = Fin (- a)"
| "js_neg PosInf = NegInf"
| "js_neg NegInf = PosInf"
| "js_neg NaN = NaN"
| "js_neg Undefined = NaN"

definition js_sub :: "number \<Rightarrow> number \<Rightarrow> number" where
  "js_sub a b = js_add a (js_neg b)"

text \<open>\<^verbatim>\<open>a * 8\<close> and \<^verbatim>\<open>Math.ceil(a / 8)\<close>.\<close>

fun times8 :: "number \<Rightarrow> number" where
  "times8 (Fin a) = Fin (a * 8)"
| "times8 PosInf = PosInf"
| "times8 NegInf = NegInf"
| "times8 NaN = NaN"
| "times8 Undefined = NaN"

fun ceil8 :: "number \<Rightarrow> number" where
  "ceil8 (Fin a) = Fin (- ((- a) div 8))"
| "ceil8 PosInf = PosInf"
| "ceil8 NegInf = NegInf"
| "ceil8 NaN = NaN"
| "ceil8 Undefined = NaN"

text \<open>\<^verbatim>\<open>a <= b\<close>: false as soon as one side is NaN or \<^verbatim>\<open>undefined\<close>.\<close>

fun js_le :: "number \<Rightarrow> number \<Rightarrow> bool" where
  "js_le (Fin a) (Fin b) = (a \<le> b)"
| "js_le (Fin a) PosInf = True"
| "js_le NegInf (Fin b) = True"
| "js_le NegInf NegInf = True"
| "js_le NegInf PosInf = True"
| "js_le PosInf PosInf = True"
| "js_le a b = False"

text \<open>The truth value of a number in a condition: false for 0, NaN and \<^verbatim>\<open>undefined\<close>.\<close>

fun truthy :: "number \<Rightarrow> bool" where
  "truthy (Fin a) = (a \<noteq> 0)"
| "truthy PosInf = True"
| "truthy NegInf = True"
| "truthy NaN = False"
| "truthy Undefined = False"

text \<open>
  \<^verbatim>\<open>ToIndex\<close>, which the getters of \<^verbatim>\<open>DataView\<close> apply to their position: \<^verbatim>\<open>undefined\<close> and NaN
  are position 0, and a position that is negative, infinite or above \<open>2 ^ 53 - 1\<close> raises
  \<^verbatim>\<open>RangeError\<close>.
\<close>

fun ToIndex :: "number \<Rightarrow> error + nat" where
  "ToIndex (Fin a) = (if a < 0 \<or> 9007199254740991 < a then Inl RangeError else Inr (nat a))"
| "ToIndex PosInf = Inl RangeError"
| "ToIndex NegInf = Inl RangeError"
| "ToIndex NaN = Inr 0"
| "ToIndex Undefined = Inr 0"

text \<open>
  \<^verbatim>\<open>ToLength\<close>, which \<^verbatim>\<open>from\<close> applies to the \<^verbatim>\<open>length\<close> of an array-like: nothing for a length
  that is not positive, NaN or \<^verbatim>\<open>undefined\<close>, and at most \<open>2 ^ 53 - 1\<close>.
\<close>

fun ToLength :: "number \<Rightarrow> nat" where
  "ToLength (Fin a) = (if a \<le> 0 then 0 else nat (min a 9007199254740991))"
| "ToLength PosInf = 9007199254740991"
| "ToLength NegInf = 0"
| "ToLength NaN = 0"
| "ToLength Undefined = 0"

text \<open>\<^verbatim>\<open>1 << n\<close>: the shift count is \<^verbatim>\<open>ToUint32(n)\<close> modulo 32, which is 0 for a count that is
  not finite, and the result is a signed 32-bit integer.\<close>

fun shl1 :: "number \<Rightarrow> int" where
  "shl1 (Fin n) = sint (push_bit (nat (n mod 32)) (1 :: 32 word))"
| "shl1 PosInf = 1"
| "shl1 NegInf = 1"
| "shl1 NaN = 1"
| "shl1 Undefined = 1"

subsection \<open>Typed arrays and values\<close>

text \<open>The constructors of \<^verbatim>\<open>type TypedArrayConstructor\<close>.\<close>

datatype typed_array =
    Uint8Array | Uint16Array | Uint32Array | BigUint64Array
  | Int8Array | Int16Array | Int32Array | BigInt64Array
  | Float16Array | Float32Array | Float64Array

fun BYTES_PER_ELEMENT :: "typed_array \<Rightarrow> nat" where
  "BYTES_PER_ELEMENT Uint8Array = 1"
| "BYTES_PER_ELEMENT Uint16Array = 2"
| "BYTES_PER_ELEMENT Uint32Array = 4"
| "BYTES_PER_ELEMENT BigUint64Array = 8"
| "BYTES_PER_ELEMENT Int8Array = 1"
| "BYTES_PER_ELEMENT Int16Array = 2"
| "BYTES_PER_ELEMENT Int32Array = 4"
| "BYTES_PER_ELEMENT BigInt64Array = 8"
| "BYTES_PER_ELEMENT Float16Array = 2"
| "BYTES_PER_ELEMENT Float32Array = 4"
| "BYTES_PER_ELEMENT Float64Array = 8"

text \<open>The two typed arrays whose elements are bigints.\<close>

fun is_bigint_array :: "typed_array \<Rightarrow> bool" where
  "is_bigint_array BigUint64Array = True"
| "is_bigint_array BigInt64Array = True"
| "is_bigint_array k = False"

text \<open>
  The values a decode produces. \<open>VNumber\<close> is an integral number, \<open>VNaN\<close> the number NaN,
  \<open>VBigInt\<close> a bigint. A number read by \<^verbatim>\<open>getFloat16/32/64\<close> is kept as \<open>VFloat k bits\<close>:
  the IEEE 754 number of format \<open>k\<close> whose bit pattern is \<open>bits\<close>. An object is the list
  of its own properties in the order \<^verbatim>\<open>Object.entries\<close> lists them.
\<close>

datatype val =
    VUndefined
  | VNaN
  | VNumber int
  | VBigInt int
  | VFloat typed_array nat
  | VBoolean bool
  | VString string
  | VArray "val list"
  | VTypedArray typed_array "val list"
  | VObject "(string \<times> val) list"

subsection \<open>Objects: own-property order\<close>

text \<open>
  An ordinary object lists its own string keys with the array indices first, in ascending
  numeric order, and then the other keys in the order they were created. An array index is
  a canonical decimal numeral below \<open>2 ^ 32 - 1\<close>.
\<close>

definition is_digit :: "char \<Rightarrow> bool" where
  "is_digit c \<longleftrightarrow> 48 \<le> (of_char c :: nat) \<and> (of_char c :: nat) \<le> 57"

definition dec_value :: "string \<Rightarrow> nat" where
  "dec_value s = foldl (\<lambda>n c. 10 * n + ((of_char c :: nat) - 48)) 0 s"

definition is_array_index :: "string \<Rightarrow> bool" where
  "is_array_index s \<longleftrightarrow>
     s \<noteq> [] \<and> list_all is_digit s \<and> (length s = 1 \<or> hd s \<noteq> CHR ''0'')
     \<and> dec_value s < 2 ^ 32 - 1"

text \<open>
  \<open>obj_set ob k v\<close> is the assignment \<^verbatim>\<open>ob[k] = v\<close> on an ordinary object (and the step of
  an object literal, of \<^verbatim>\<open>Object.fromEntries\<close> and of object spread): an existing key keeps
  its place and takes the new value; a new array index goes to its numeric place; any other
  new key goes last. (The key \<^verbatim>\<open>__proto__\<close>, which an assignment does not store as an own
  property, is not modelled.)
\<close>

fun obj_set :: "(string \<times> 'a) list \<Rightarrow> string \<Rightarrow> 'a \<Rightarrow> (string \<times> 'a) list" where
  "obj_set [] k v = [(k, v)]"
| "obj_set ((k', v') # ps) k v =
     (if k' = k then (k, v) # ps
      else if is_array_index k \<and> (if is_array_index k' then dec_value k < dec_value k' else True)
        then (k, v) # (k', v') # ps
      else (k', v') # obj_set ps k v)"

definition obj_get :: "(string \<times> 'a) list \<Rightarrow> string \<Rightarrow> 'a option" where
  "obj_get ob k = map_of ob k"

text \<open>An object literal, and \<^verbatim>\<open>Object.fromEntries\<close>: the entries are set one after another.\<close>

definition Object_fromEntries :: "(string \<times> 'a) list \<Rightarrow> (string \<times> 'a) list" where
  "Object_fromEntries kvs = foldl (\<lambda>ob (k, v). obj_set ob k v) [] kvs"

definition Object_keys :: "(string \<times> 'a) list \<Rightarrow> string list" where
  "Object_keys ob = map fst ob"

text \<open>The decimal numeral of a number: the key of an array element.\<close>

fun dec_string :: "nat \<Rightarrow> string" where
  "dec_string n =
     (if n < 10 then [char_of (48 + n)]
      else dec_string (n div 10) @ [char_of (48 + n mod 10)])"

declare dec_string.simps [simp del]

definition index_entries :: "val list \<Rightarrow> (string \<times> val) list" where
  "index_entries vs = zip (map dec_string [0..<length vs]) vs"

text \<open>
  The own enumerable properties that object spread \<^verbatim>\<open>{...v}\<close> copies from a value: the
  properties of an object, the elements of an array or typed array and the characters of a
  string under their indices, and nothing for \<^verbatim>\<open>undefined\<close>, a number, a bigint or a
  boolean.
\<close>

fun own_entries :: "val \<Rightarrow> (string \<times> val) list" where
  "own_entries (VObject ps) = ps"
| "own_entries (VArray vs) = index_entries vs"
| "own_entries (VTypedArray k vs) = index_entries vs"
| "own_entries (VString s) = index_entries (map (\<lambda>c. VString [c]) s)"
| "own_entries VUndefined = []"
| "own_entries VNaN = []"
| "own_entries (VNumber n) = []"
| "own_entries (VBigInt n) = []"
| "own_entries (VFloat k b) = []"
| "own_entries (VBoolean b) = []"

text \<open>\<^verbatim>\<open>{...a, ...r}\<close> for an object \<open>a\<close> and any value \<open>r\<close>.\<close>

definition obj_spread :: "(string \<times> val) list \<Rightarrow> val \<Rightarrow> (string \<times> val) list" where
  "obj_spread a r = foldl (\<lambda>ob (k, v). obj_set ob k v) (Object_fromEntries a) (own_entries r)"

subsection \<open>Slices and prefixes\<close>

text \<open>
  \<^verbatim>\<open>x.slice(begin, end)\<close> of a string or an \<^verbatim>\<open>ArrayBuffer\<close>. A position is made an integer
  (NaN and \<^verbatim>\<open>undefined\<close> are 0), counts from the end when it is negative, and is clamped to
  the range; an \<^verbatim>\<open>end\<close> that is \<^verbatim>\<open>undefined\<close>, or not given, is the length. An empty range
  gives an empty result. Nothing is raised.
\<close>

fun clamp_index :: "nat \<Rightarrow> number \<Rightarrow> nat" where
  "clamp_index len (Fin i) = (if i < 0 then nat (max (int len + i) 0) else min (nat i) len)"
| "clamp_index len PosInf = len"
| "clamp_index len NegInf = 0"
| "clamp_index len NaN = 0"
| "clamp_index len Undefined = 0"

definition slice :: "'a list \<Rightarrow> number \<Rightarrow> number \<Rightarrow> 'a list" where
  "slice xs b e =
     (let first = clamp_index (length xs) b;
          final = (if e = Undefined then length xs else clamp_index (length xs) e)
      in take (final - first) (drop first xs))"

definition slice_from :: "'a list \<Rightarrow> number \<Rightarrow> 'a list" where
  "slice_from xs b = drop (clamp_index (length xs) b) xs"

definition startsWith :: "string \<Rightarrow> string \<Rightarrow> bool" where
  "startsWith s p \<longleftrightarrow> take (length p) s = p"

subsection \<open>DataView\<close>

text \<open>
  \<^verbatim>\<open>new DataView(buffer)\<close> views the whole buffer, so the view is the list of the buffer's
  bytes. A getter raises \<^verbatim>\<open>RangeError\<close> when \<^verbatim>\<open>ToIndex\<close> refuses the position or the element
  does not fit before the end of the view; otherwise it reads the element's bytes, most
  significant byte first unless \<open>le\<close> is set.
\<close>

definition be_value :: "byte list \<Rightarrow> nat" where
  "be_value bs = foldl (\<lambda>a b. a * 256 + unat b) 0 bs"

definition twos_complement :: "nat \<Rightarrow> nat \<Rightarrow> int" where
  "twos_complement bits n = (if n < 2 ^ (bits - 1) then int n else int n - 2 ^ bits)"

fun element_value :: "typed_array \<Rightarrow> nat \<Rightarrow> val" where
  "element_value Uint8Array n = VNumber (int n)"
| "element_value Uint16Array n = VNumber (int n)"
| "element_value Uint32Array n = VNumber (int n)"
| "element_value BigUint64Array n = VBigInt (int n)"
| "element_value Int8Array n = VNumber (twos_complement 8 n)"
| "element_value Int16Array n = VNumber (twos_complement 16 n)"
| "element_value Int32Array n = VNumber (twos_complement 32 n)"
| "element_value BigInt64Array n = VBigInt (twos_complement 64 n)"
| "element_value Float16Array n = VFloat Float16Array n"
| "element_value Float32Array n = VFloat Float32Array n"
| "element_value Float64Array n = VFloat Float64Array n"

definition dv_get :: "typed_array \<Rightarrow> byte list \<Rightarrow> number \<Rightarrow> bool \<Rightarrow> error + val" where
  "dv_get k dv i le =
     (case ToIndex i of
        Inl e \<Rightarrow> Inl e
      | Inr n \<Rightarrow>
          if length dv < n + BYTES_PER_ELEMENT k then Inl RangeError
          else let bs = take (BYTES_PER_ELEMENT k) (drop n dv)
               in Inr (element_value k (be_value (if le then rev bs else bs))))"

subsection \<open>Array.from and TypedArray.from\<close>

text \<open>
  \<^verbatim>\<open>C.from({ length: len })\<close> for the constructor \<open>C\<close> that \<^verbatim>\<open>array\<close> picks: the typed array
  constructor \<open>Some k\<close> that the element pattern carries, or \<^verbatim>\<open>Array\<close> (\<open>None\<close>). The result
  has \<^verbatim>\<open>ToLength(len)\<close> elements, each made from \<^verbatim>\<open>undefined\<close>. \<^verbatim>\<open>Array\<close> raises \<^verbatim>\<open>RangeError\<close>
  for a length above \<open>2 ^ 32 - 1\<close>. A typed array is allocated first, which raises
  \<^verbatim>\<open>RangeError\<close> when it would take more than \<open>2 ^ 53 - 1\<close> bytes, and is then filled: for a
  \<^verbatim>\<open>BigUint64Array\<close> or \<^verbatim>\<open>BigInt64Array\<close> the first element raises \<^verbatim>\<open>TypeError\<close>, because
  \<^verbatim>\<open>undefined\<close> cannot be converted to a bigint. The value is the number of elements of the
  new array. (An engine may refuse a typed array far below \<open>2 ^ 53 - 1\<close> bytes; that limit
  is the engine's and is not modelled.)
\<close>

definition array_from :: "typed_array option \<Rightarrow> number \<Rightarrow> error + nat" where
  "array_from C len =
     (let n = ToLength len
      in case C of
           None \<Rightarrow> if 4294967295 < n then Inl RangeError else Inr n
         | Some k \<Rightarrow>
             if 9007199254740991 < n * BYTES_PER_ELEMENT k then Inl RangeError
             else if is_bigint_array k \<and> 0 < n then Inl TypeError
             else Inr n)"

section \<open>Contexts and patterns\<close>

text \<open>
  \<^verbatim>\<open>interface BinpatContext { endian; parent?; offset; data }\<close>. The \<open>parent\<close> of a context is
  an object that no handler changes while the child is live (the parent's own loop is
  suspended), so the child holds it by value.
\<close>

datatype ctx =
  Ctx (endian: endian) (parent: "ctx option") (offset: number) (data: "(string \<times> val) list")

definition set_offset :: "number \<Rightarrow> ctx \<Rightarrow> ctx" where
  "set_offset n c = Ctx (endian c) (parent c) n (data c)"

definition set_data :: "(string \<times> val) list \<Rightarrow> ctx \<Rightarrow> ctx" where
  "set_data d c = Ctx (endian c) (parent c) (offset c) d"

text \<open>\<^verbatim>\<open>number | ((ctx: BinpatContext) => number)\<close>, and its use
  \<^verbatim>\<open>typeof x === 'function' ? x(ctx) : x\<close>.\<close>

datatype size = Num number | Fn "ctx \<Rightarrow> number"

fun resolve :: "size \<Rightarrow> ctx \<Rightarrow> number" where
  "resolve (Num n) c = n"
| "resolve (Fn f) c = f c"

text \<open>
  The layout of a bitfield: \<^verbatim>\<open>{ [name: string]: number | BitfieldType }\<close> and
  \<^verbatim>\<open>BitfieldOption\<close>. \<open>Number n\<close> is a layout value that is not an object: a number, or
  \<^verbatim>\<open>undefined\<close>. \<open>Def t n\<close> is an object with the type \<open>t\<close> and the size \<open>n\<close>, which is
  \<^verbatim>\<open>undefined\<close> for an object that has no size.
\<close>

datatype bit_type = TypeU | TypeI | TypeBool

datatype bit_def = Number number | Def bit_type number

datatype first = MSb | LSb

text \<open>
  \<^verbatim>\<open>type BinpatPattern\<close>. A handler is a closure made by one of the exported functions;
  the pattern keeps which function made it and with which arguments: \<open>TypedP\<close> for
  \<^verbatim>\<open>createTypedHandler(constructor)(littleEndian)\<close>, \<open>BoolP\<close> for \<^verbatim>\<open>bool()\<close>, \<open>StringP\<close> for
  \<^verbatim>\<open>string(size, encoding)\<close> and so on. In \<open>StringP\<close> the encoding label is given as the
  function \<^verbatim>\<open>new TextDecoder(encoding).decode\<close> it names (raising for an unknown label).
  \<open>SeqP\<close> is a native array of patterns, \<open>ObjP\<close> an object literal of patterns with its
  entries as written, \<open>LitP\<close> a string, number or boolean.
\<close>

datatype pattern =
    TypedP typed_array "bool option"
  | BoolP
  | StringP size "byte list \<Rightarrow> error + string"
  | ArrayP pattern size
  | BitfieldP "(string \<times> bit_def) list" "endian option" "first option"
  | TernaryP "ctx \<Rightarrow> bool" pattern "pattern option"
  | ConvertP pattern "val \<Rightarrow> ctx \<Rightarrow> val"
  | SeekP size
  | PeekP size pattern
  | SkipP number
  | SeqP "pattern list"
  | ObjP "(string \<times> pattern) list"
  | LitP val

text \<open>The exported pattern functions, under their names.\<close>

definition u8 :: pattern where "u8 = TypedP Uint8Array None"
definition u16 :: "bool option \<Rightarrow> pattern" where "u16 le = TypedP Uint16Array le"
definition u32 :: "bool option \<Rightarrow> pattern" where "u32 le = TypedP Uint32Array le"
definition u64 :: "bool option \<Rightarrow> pattern" where "u64 le = TypedP BigUint64Array le"
definition i8 :: pattern where "i8 = TypedP Int8Array None"
definition i16 :: "bool option \<Rightarrow> pattern" where "i16 le = TypedP Int16Array le"
definition i32 :: "bool option \<Rightarrow> pattern" where "i32 le = TypedP Int32Array le"
definition i64 :: "bool option \<Rightarrow> pattern" where "i64 le = TypedP BigInt64Array le"
definition f16 :: "bool option \<Rightarrow> pattern" where "f16 le = TypedP Float16Array le"
definition f32 :: "bool option \<Rightarrow> pattern" where "f32 le = TypedP Float32Array le"
definition f64 :: "bool option \<Rightarrow> pattern" where "f64 le = TypedP Float64Array le"

text \<open>
  \<^verbatim>\<open>omit\<close> and \<^verbatim>\<open>spread\<close> return a key: two slashes, or three dots, followed by the
  string \<open>rnd\<close> that \<^verbatim>\<open>random()\<close> returned. The comment argument is ignored.
\<close>

definition omit :: "string \<Rightarrow> string" where
  "omit rnd = ''//'' @ rnd"

definition spread :: "string \<Rightarrow> string" where
  "spread rnd = ''...'' @ rnd"

section \<open>Leaf handlers\<close>

definition createTypedHandler ::
  "typed_array \<Rightarrow> bool option \<Rightarrow> byte list \<Rightarrow> ctx \<Rightarrow> error + (val \<times> ctx)" where
  "createTypedHandler constructor littleEndian dv c =
     (let le = (case littleEndian of Some b \<Rightarrow> b | None \<Rightarrow> endian c = Little)
      in case dv_get constructor dv (offset c) le of
           Inl e \<Rightarrow> Inl e
         | Inr v \<Rightarrow>
             Inr (v, set_offset (js_add (offset c) (Fin (int (BYTES_PER_ELEMENT constructor)))) c))"

text \<open>\<^verbatim>\<open>bool()\<close>: \<^verbatim>\<open>!!dv.getUint8(ctx.offset)\<close>, true unless the byte is 0.\<close>

definition bool_handler :: "byte list \<Rightarrow> ctx \<Rightarrow> error + (val \<times> ctx)" where
  "bool_handler dv c =
     (case dv_get Uint8Array dv (offset c) False of
        Inl e \<Rightarrow> Inl e
      | Inr v \<Rightarrow> Inr (VBoolean (v \<noteq> VNumber 0), set_offset (js_add (offset c) (Fin 1)) c))"

definition string_handler ::
  "size \<Rightarrow> (byte list \<Rightarrow> error + string) \<Rightarrow> byte list \<Rightarrow> ctx \<Rightarrow> error + (val \<times> ctx)" where
  "string_handler sz decode dv c =
     (let len = resolve sz c;
          bytes = slice dv (offset c) (js_add (offset c) len)
      in case decode bytes of
           Inl e \<Rightarrow> Inl e
         | Inr s \<Rightarrow> Inr (VString s, set_offset (js_add (offset c) len) c))"

definition seek_handler :: "size \<Rightarrow> byte list \<Rightarrow> ctx \<Rightarrow> error + (val \<times> ctx)" where
  "seek_handler off dv c = Inr (VUndefined, set_offset (resolve off c) c)"

definition skip_handler :: "number \<Rightarrow> byte list \<Rightarrow> ctx \<Rightarrow> error + (val \<times> ctx)" where
  "skip_handler off dv c = Inr (VUndefined, set_offset (js_add (offset c) off) c)"

subsection \<open>The bitfield handler\<close>

text \<open>\<^verbatim>\<open>byte.toString(2).padStart(8, '0')\<close>: the eight binary digits of a byte.\<close>

definition to_binary8 :: "byte \<Rightarrow> string" where
  "to_binary8 b = map (\<lambda>i. if bit b i then CHR ''1'' else CHR ''0'') [7, 6, 5, 4, 3, 2, 1, 0]"

text \<open>
  \<^verbatim>\<open>Number.parseInt(s, 2)\<close> on a string of binary digits: the number the leading digits
  denote, or NaN (\<open>None\<close>) when there is no leading digit.
\<close>

definition parseInt2 :: "string \<Rightarrow> int option" where
  "parseInt2 s =
     (let ds = takeWhile (\<lambda>c. c = CHR ''0'' \<or> c = CHR ''1'') s
      in if ds = [] then None
         else Some (foldl (\<lambda>n c. 2 * n + (if c = CHR ''1'' then 1 else 0)) 0 ds))"

text \<open>The typed value of one field of size \<open>sz\<close>, from the parsed number \<open>v\<close> (\<open>None\<close> is
  NaN).\<close>

fun typed_value :: "bit_type \<Rightarrow> number \<Rightarrow> int option \<Rightarrow> val" where
  "typed_value TypeU sz None = VNaN"
| "typed_value TypeU sz (Some v) = VNumber v"
| "typed_value TypeI sz None = VNaN"
| "typed_value TypeI sz (Some v) =
     VNumber (if v < shl1 (js_sub sz (Fin 1)) then v else v - shl1 sz)"
| "typed_value TypeBool sz None = VBoolean False"
| "typed_value TypeBool sz (Some v) = VBoolean (v \<noteq> 0)"

text \<open>
  \<^verbatim>\<open>typeof value === 'number' ? { type: 'u', size: value } : value\<close>, and the \<^verbatim>\<open>size\<close> that
  the handler reads from the result. A layout value that is \<^verbatim>\<open>undefined\<close> stays
  \<^verbatim>\<open>undefined\<close>, and reading its \<^verbatim>\<open>size\<close> raises \<^verbatim>\<open>TypeError\<close> (\<open>has_size\<close> is false).
\<close>

fun definition_of :: "bit_def \<Rightarrow> bit_type \<times> number" where
  "definition_of (Number n) = (TypeU, n)"
| "definition_of (Def t n) = (t, n)"

fun has_size :: "bit_def \<Rightarrow> bool" where
  "has_size (Number Undefined) = False"
| "has_size d = True"

text \<open>
  \<^verbatim>\<open>kvs.map(...).filter((x) => x !== null)\<close>: each field takes its bits from the front of
  \<open>content\<close>; a field whose key starts with two slashes gives no entry.
\<close>

fun take_fields :: "(string \<times> bit_type \<times> number) list \<Rightarrow> string \<Rightarrow> (string \<times> val) list" where
  "take_fields [] content = []"
| "take_fields ((key, t, sz) # kvs) content =
     (let v = parseInt2 (slice content (Fin 0) sz);
          content' = slice_from content sz
      in if startsWith key ''//'' then take_fields kvs content'
         else (key, typed_value t sz v) # take_fields kvs content')"

text \<open>
  The handler of \<^verbatim>\<open>bitfield(field, option)\<close>. The key of the end padding is \<^verbatim>\<open>omit()\<close>, with
  \<open>rnd\<close> the string that \<^verbatim>\<open>random()\<close> returns in this call. The sum of the sizes is the
  first step that reads a \<^verbatim>\<open>size\<close>, and the first that can raise: it raises
  \<^verbatim>\<open>TypeError\<close> when a layout value is \<^verbatim>\<open>undefined\<close>.
\<close>

definition bitfield_handler ::
  "string \<Rightarrow> (string \<times> bit_def) list \<Rightarrow> endian option \<Rightarrow> first option \<Rightarrow> byte list \<Rightarrow> ctx
     \<Rightarrow> error + (val \<times> ctx)" where
  "bitfield_handler rnd field opt_endian opt_first dv c =
     (if list_all (\<lambda>(key, d). has_size d) (Object_fromEntries field) then
       let endian' = (case opt_endian of Some e \<Rightarrow> e | None \<Rightarrow> endian c);
          first' = (case opt_first of Some f \<Rightarrow> f
                    | None \<Rightarrow> if endian' = Big then MSb else LSb);
          kvs = map (\<lambda>(key, d). (key, definition_of d)) (Object_fromEntries field);
          bitSize = foldl (\<lambda>sum (key, t, sz). js_add sum sz) (Fin 0) kvs;
          byteSize = ceil8 bitSize;
          endPadding = js_sub (times8 byteSize) bitSize;
          kvs = (if truthy endPadding then kvs @ [(omit rnd, TypeU, endPadding)] else kvs);
          kvs = (if first' = LSb then rev kvs else kvs);
          bytes = slice dv (offset c) (js_add (offset c) byteSize);
          bytes = (if endian' = Little then rev bytes else bytes);
          content = concat (map to_binary8 bytes);
          result = Object_fromEntries (take_fields kvs content)
       in Inr (VObject (Object_fromEntries
                (map (\<lambda>key. (key, case obj_get result key of Some v \<Rightarrow> v | None \<Rightarrow> VUndefined))
                   (filter (\<lambda>key. \<not> startsWith key ''//'')
                      (Object_keys (Object_fromEntries field))))),
              set_offset (js_add (offset c) byteSize) c)
      else Inl TypeError)"

section \<open>The interpreter\<close>

text \<open>
  The step of the \<^verbatim>\<open>forEach\<close> over the entries of an object pattern, after the entry's
  pattern returned \<open>result\<close>: a key that starts with three dots spreads the result into a
  fresh copy of \<^verbatim>\<open>ctx.data\<close>, a key that starts with two slashes stores nothing, any other
  key is assigned.
\<close>

definition store :: "string \<Rightarrow> val \<Rightarrow> ctx \<Rightarrow> ctx" where
  "store key result c =
     (if startsWith key ''...'' then set_data (obj_spread (data c) result) c
      else if startsWith key ''//'' then c
      else set_data (obj_set (data c) key result) c)"

text \<open>
  \<^verbatim>\<open>pattern[BINPAT_ARRAY]\<close>: only the handlers made by \<^verbatim>\<open>createTypedHandler\<close> carry a typed
  array constructor; reading a property of the pattern \<^verbatim>\<open>undefined\<close> raises \<^verbatim>\<open>TypeError\<close>.
  \<open>array_of C vs\<close> is the array that \<^verbatim>\<open>map\<close> returns for the elements \<open>vs\<close>: of the same
  kind as the array it runs on, which \<open>C\<close> made.
\<close>

fun BINPAT_ARRAY :: "pattern \<Rightarrow> error + typed_array option" where
  "BINPAT_ARRAY (TypedP k le) = Inr (Some k)"
| "BINPAT_ARRAY (LitP VUndefined) = Inl TypeError"
| "BINPAT_ARRAY p = Inr None"

fun array_of :: "typed_array option \<Rightarrow> val list \<Rightarrow> val" where
  "array_of (Some k) vs = VTypedArray k vs"
| "array_of None vs = VArray vs"

text \<open>Setting entries one after another never makes an object larger than the list of
  entries; the interpreter's recursion through an object pattern rests on it.\<close>

lemma size_list_obj_set:
  "size_list f (obj_set ob k v) \<le> size_list f ob + Suc (f (k, v))"
  by (induction ob k v rule: obj_set.induct) auto

lemma size_list_foldl_obj_set:
  "size_list f (foldl (\<lambda>ob (k, v). obj_set ob k v) ob kvs) \<le> size_list f ob + size_list f kvs"
proof (induction kvs arbitrary: ob)
  case Nil
  then show ?case by simp
next
  case (Cons kv kvs)
  obtain k v where kv: "kv = (k, v)" by (cases kv)
  have "size_list f (foldl (\<lambda>ob (k, v). obj_set ob k v) (obj_set ob k v) kvs)
        \<le> size_list f (obj_set ob k v) + size_list f kvs"
    by (rule Cons.IH)
  also have "\<dots> \<le> size_list f ob + Suc (f (k, v)) + size_list f kvs"
    using size_list_obj_set [of f ob k v] by simp
  finally show ?case by (simp add: kv)
qed

lemma size_list_Object_fromEntries:
  "size_list f (Object_fromEntries kvs) \<le> size_list f kvs"
  using size_list_foldl_obj_set [of f "[]" kvs] by (simp add: Object_fromEntries_def)

text \<open>
  \<^verbatim>\<open>function exec(dv, pattern, parent)\<close>, with the handlers that call it back (\<^verbatim>\<open>array\<close>,
  \<^verbatim>\<open>ternary\<close>, \<^verbatim>\<open>convert\<close>, \<^verbatim>\<open>peek\<close>) in their places. The context is passed in and returned
  with the result. \<open>exec_map\<close> is \<^verbatim>\<open>pattern.map((pat) => exec(dv, pat, parent))\<close> on a native
  array, \<open>exec_forEach\<close> the \<^verbatim>\<open>forEach\<close> over the entries of an object pattern on its new
  context, and \<open>exec_from\<close> the \<^verbatim>\<open>map\<close> over the elements of the array that \<^verbatim>\<open>array\<close> made
  with \<^verbatim>\<open>from\<close>: it runs only if \<^verbatim>\<open>from\<close> returned. The bitfield handler is run with the
  empty string for the random part of its padding key; its result does not depend on that
  string (\<open>bitfield_handler_random\<close> below).
\<close>

function (sequential) exec :: "byte list \<Rightarrow> pattern \<Rightarrow> ctx \<Rightarrow> error + (val \<times> ctx)"
  and exec_map :: "byte list \<Rightarrow> pattern list \<Rightarrow> ctx \<Rightarrow> error + (val list \<times> ctx)"
  and exec_forEach :: "byte list \<Rightarrow> (string \<times> pattern) list \<Rightarrow> ctx \<Rightarrow> error + ctx"
  and exec_from :: "byte list \<Rightarrow> pattern \<Rightarrow> nat \<Rightarrow> ctx \<Rightarrow> error + (val list \<times> ctx)"
where
  "exec dv (TypedP k le) c = createTypedHandler k le dv c"
| "exec dv BoolP c = bool_handler dv c"
| "exec dv (StringP sz decode) c = string_handler sz decode dv c"
| "exec dv (ArrayP p sz) c =
     (let len = resolve sz c
      in case BINPAT_ARRAY p of
           Inl e \<Rightarrow> Inl e
         | Inr C \<Rightarrow>
             (case array_from C len of
                Inl e \<Rightarrow> Inl e
              | Inr n \<Rightarrow>
                  (case exec_from dv p n c of
                     Inl e \<Rightarrow> Inl e
                   | Inr (vs, c') \<Rightarrow> Inr (array_of C vs, c'))))"
| "exec dv (BitfieldP field opt_endian opt_first) c =
     bitfield_handler [] field opt_endian opt_first dv c"
| "exec dv (TernaryP condition t f) c =
     (if condition c then exec dv t c
      else case f of None \<Rightarrow> Inr (VUndefined, c) | Some p \<Rightarrow> exec dv p c)"
| "exec dv (ConvertP p fn) c =
     (case exec dv p c of
        Inl e \<Rightarrow> Inl e
      | Inr (v, c') \<Rightarrow> Inr (fn v c', c'))"
| "exec dv (SeekP off) c = seek_handler off dv c"
| "exec dv (PeekP off p) c =
     (let currentOffset = offset c
      in case exec dv p (set_offset (resolve off c) c) of
           Inl e \<Rightarrow> Inl e
         | Inr (v, c') \<Rightarrow> Inr (v, set_offset currentOffset c'))"
| "exec dv (SkipP off) c = skip_handler off dv c"
| "exec dv (SeqP ps) c =
     (case exec_map dv ps c of
        Inl e \<Rightarrow> Inl e
      | Inr (vs, c') \<Rightarrow> Inr (VArray vs, c'))"
| "exec dv (ObjP entries) parent' =
     (case exec_forEach dv (Object_fromEntries entries)
             (Ctx (endian parent') (Some parent') (offset parent') []) of
        Inl e \<Rightarrow> Inl e
      | Inr c \<Rightarrow> Inr (VObject (data c), set_offset (offset c) parent'))"
| "exec dv (LitP v) c = Inr (v, c)"
| "exec_map dv [] c = Inr ([], c)"
| "exec_map dv (pat # ps) c =
     (case exec dv pat c of
        Inl e \<Rightarrow> Inl e
      | Inr (v, c') \<Rightarrow>
          (case exec_map dv ps c' of
             Inl e \<Rightarrow> Inl e
           | Inr (vs, c'') \<Rightarrow> Inr (v # vs, c'')))"
| "exec_forEach dv [] c = Inr c"
| "exec_forEach dv ((key, pat) # entries) c =
     (case exec dv pat c of
        Inl e \<Rightarrow> Inl e
      | Inr (result, c') \<Rightarrow> exec_forEach dv entries (store key result c'))"
| "exec_from dv p 0 c = Inr ([], c)"
| "exec_from dv p (Suc n) c =
     (case exec dv p c of
        Inl e \<Rightarrow> Inl e
      | Inr (v, c') \<Rightarrow>
          (case exec_from dv p n c' of
             Inl e \<Rightarrow> Inl e
           | Inr (vs, c'') \<Rightarrow> Inr (v # vs, c'')))"
  by pat_completeness auto

termination
proof (relation "inv_image (less_than <*lex*> less_than)
    (\<lambda>x. case x of
       Inl (Inl (dv, p, c)) \<Rightarrow> (size p, 0)
     | Inl (Inr (dv, ps, c)) \<Rightarrow> (size_list size ps, 0)
     | Inr (Inl (dv, es, c)) \<Rightarrow> (size_list (size_prod (\<lambda>_. 0) size) es, 0)
     | Inr (Inr (dv, p, n, c)) \<Rightarrow> (size p, Suc n))", goal_cases)
  case (8 dv entries parent')
  show ?case
    using size_list_Object_fromEntries [of "size_prod (\<lambda>_. 0) size" entries]
    by simp
qed auto

text \<open>
  \<^verbatim>\<open>class Binpat\<close>: the constructor keeps the pattern and the global endianness
  (\<^verbatim>\<open>option?.endian === 'little' ? 'little' : 'big'\<close>); \<^verbatim>\<open>exec(buffer)\<close> runs the pattern on a
  root context with no parent, offset 0 and empty data, and returns the value.
\<close>

definition root_context :: "endian option \<Rightarrow> ctx" where
  "root_context opt = Ctx (if opt = Some Little then Little else Big) None (Fin 0) []"

definition Binpat_exec :: "pattern \<Rightarrow> endian option \<Rightarrow> byte list \<Rightarrow> error + val" where
  "Binpat_exec pat opt buffer =
     (case exec buffer pat (root_context opt) of
        Inl e \<Rightarrow> Inl e
      | Inr (v, c) \<Rightarrow> Inr v)"

section \<open>Notions for the statements\<close>

text \<open>
  What a call leaves alone. A pattern changes only the offset of the context it runs on
  (\<open>same_frame\<close>); the loop over the entries of an object pattern also changes the data of
  its own context, and nothing else (\<open>same_scope\<close>).
\<close>

definition same_frame :: "ctx \<Rightarrow> ctx \<Rightarrow> bool" where
  "same_frame c c' \<longleftrightarrow> endian c' = endian c \<and> parent c' = parent c \<and> data c' = data c"

definition same_scope :: "ctx \<Rightarrow> ctx \<Rightarrow> bool" where
  "same_scope c c' \<longleftrightarrow> endian c' = endian c \<and> parent c' = parent c"

text \<open>
  \<^verbatim>\<open>(ctx) => ctx.data[name]\<close> as a size, for data in which the field holds an integral
  number or NaN, or is \<^verbatim>\<open>undefined\<close>, or is not there, which reads as \<^verbatim>\<open>undefined\<close>. (A
  field that holds a value of another kind is outside the examples; it is read as
  \<^verbatim>\<open>undefined\<close> here.)
\<close>

definition data_number :: "string \<Rightarrow> ctx \<Rightarrow> number" where
  "data_number name c =
     (case obj_get (data c) name of
        Some (VNumber n) \<Rightarrow> Fin n
      | Some VNaN \<Rightarrow> NaN
      | _ \<Rightarrow> Undefined)"

text \<open>A text decoder for the examples: \<^verbatim>\<open>new TextDecoder('utf-8').decode\<close> on bytes below
  128 (one character for each byte).\<close>

definition ascii :: "byte list \<Rightarrow> error + string" where
  "ascii bytes = Inr (map (\<lambda>b. char_of (unat b)) bytes)"

text \<open>The number of bytes that the bitfield handler reads for a layout, and adds to the
  offset.\<close>

definition byte_size :: "(string \<times> bit_def) list \<Rightarrow> number" where
  "byte_size field =
     ceil8 (foldl (\<lambda>sum (key, t, sz). js_add sum sz) (Fin 0)
              (map (\<lambda>(key, d). (key, definition_of d)) (Object_fromEntries field)))"

text \<open>
  \<open>forward dv p c\<close>: in the run of the pattern \<open>p\<close> on the context \<open>c\<close>, outside the pattern
  of a \<^verbatim>\<open>peek\<close>, every \<^verbatim>\<open>seek\<close> has a target that is not before the offset at that moment
  (\<^verbatim>\<open>offset <= target\<close>), every \<^verbatim>\<open>skip\<close> has an amount that is not negative (\<^verbatim>\<open>0 <= amount\<close>),
  and so have every string its size and every bitfield its size in bytes. The comparisons
  are JavaScript's, so a target, an amount or a size that is NaN or \<^verbatim>\<open>undefined\<close> does not
  pass. The run is followed as the interpreter makes it: each pattern is looked at on the
  context that the patterns before it left, and a pattern that is not reached is not
  looked at.
\<close>

function (sequential) forward :: "byte list \<Rightarrow> pattern \<Rightarrow> ctx \<Rightarrow> bool"
  and forward_map :: "byte list \<Rightarrow> pattern list \<Rightarrow> ctx \<Rightarrow> bool"
  and forward_forEach :: "byte list \<Rightarrow> (string \<times> pattern) list \<Rightarrow> ctx \<Rightarrow> bool"
  and forward_from :: "byte list \<Rightarrow> pattern \<Rightarrow> nat \<Rightarrow> ctx \<Rightarrow> bool"
where
  "forward dv (TypedP k le) c = True"
| "forward dv BoolP c = True"
| "forward dv (StringP sz decode) c = js_le (Fin 0) (resolve sz c)"
| "forward dv (ArrayP p sz) c =
     (case BINPAT_ARRAY p of
        Inl e \<Rightarrow> True
      | Inr C \<Rightarrow>
          (case array_from C (resolve sz c) of
             Inl e \<Rightarrow> True
           | Inr n \<Rightarrow> forward_from dv p n c))"
| "forward dv (BitfieldP field opt_endian opt_first) c = js_le (Fin 0) (byte_size field)"
| "forward dv (TernaryP condition t f) c =
     (if condition c then forward dv t c
      else case f of None \<Rightarrow> True | Some p \<Rightarrow> forward dv p c)"
| "forward dv (ConvertP p fn) c = forward dv p c"
| "forward dv (SeekP off) c = js_le (offset c) (resolve off c)"
| "forward dv (PeekP off p) c = True"
| "forward dv (SkipP off) c = js_le (Fin 0) off"
| "forward dv (SeqP ps) c = forward_map dv ps c"
| "forward dv (ObjP entries) c =
     forward_forEach dv (Object_fromEntries entries) (Ctx (endian c) (Some c) (offset c) [])"
| "forward dv (LitP v) c = True"
| "forward_map dv [] c = True"
| "forward_map dv (pat # ps) c =
     (forward dv pat c \<and>
      (case exec dv pat c of
         Inl e \<Rightarrow> True
       | Inr (v, c') \<Rightarrow> forward_map dv ps c'))"
| "forward_forEach dv [] c = True"
| "forward_forEach dv ((key, pat) # entries) c =
     (forward dv pat c \<and>
      (case exec dv pat c of
         Inl e \<Rightarrow> True
       | Inr (result, c') \<Rightarrow> forward_forEach dv entries (store key result c')))"
| "forward_from dv p 0 c = True"
| "forward_from dv p (Suc n) c =
     (forward dv p c \<and>
      (case exec dv p c of
         Inl e \<Rightarrow> True
       | Inr (v, c') \<Rightarrow> forward_from dv p n c'))"
  by pat_completeness auto

termination
proof (relation "inv_image (less_than <*lex*> less_than)
    (\<lambda>x. case x of
       Inl (Inl (dv, p, c)) \<Rightarrow> (size p, 0)
     | Inl (Inr (dv, ps, c)) \<Rightarrow> (size_list size ps, 0)
     | Inr (Inl (dv, es, c)) \<Rightarrow> (size_list (size_prod (\<lambda>_. 0) size) es, 0)
     | Inr (Inr (dv, p, n, c)) \<Rightarrow> (size p, Suc n))", goal_cases)
  case (7 dv entries c)
  show ?case
    using size_list_Object_fromEntries [of "size_prod (\<lambda>_. 0) size" entries]
    by simp
qed auto

text \<open>\<open>bounded_below a\<close>: \<open>a\<close> is an integer or plus infinity (a number, and not minus
  infinity). \<open>advances c c'\<close>: if the offset of \<open>c\<close> is such a number, the offset of \<open>c'\<close> is
  a number that is not before it.\<close>

definition bounded_below :: "number \<Rightarrow> bool" where
  "bounded_below a \<longleftrightarrow> js_le a a \<and> a \<noteq> NegInf"

definition advances :: "ctx \<Rightarrow> ctx \<Rightarrow> bool" where
  "advances c c' \<longleftrightarrow> (bounded_below (offset c) \<longrightarrow> js_le (offset c) (offset c'))"

text \<open>
  The entries that the loop over an object pattern has run, in the order it ran them: for
  each one its key, the context its pattern ran on, the result, and the context the
  pattern left. The loop stops at the first error.
\<close>

record visit =
  v_key :: string
  v_before :: ctx
  v_result :: val
  v_after :: ctx

fun visits :: "byte list \<Rightarrow> (string \<times> pattern) list \<Rightarrow> ctx \<Rightarrow> visit list" where
  "visits dv [] c = []"
| "visits dv ((key, pat) # entries) c =
     (case exec dv pat c of
        Inl e \<Rightarrow> []
      | Inr (result, c') \<Rightarrow>
          \<lparr>v_key = key, v_before = c, v_result = result, v_after = c'\<rparr>
            # visits dv entries (store key result c'))"

text \<open>What a visited entry adds to the result, by its key.\<close>

definition contribution :: "visit \<Rightarrow> (string \<times> val) list" where
  "contribution x =
     (if startsWith (v_key x) ''...'' then own_entries (v_result x)
      else if startsWith (v_key x) ''//'' then []
      else [(v_key x, v_result x)])"

section \<open>Basic facts\<close>

lemma startsWith_omit: "startsWith (omit rnd) ''//''"
  by (simp add: startsWith_def omit_def)

lemma layout_entries:
  "Object_fromEntries [(''a'', Number (Fin 3)), (''b'', Def TypeU (Fin 3)),
        (omit rnd, Number (Fin 4)), (''c'', Def TypeI (Fin 5)), (''d'', Def TypeBool (Fin 1))]
   = [(''a'', Number (Fin 3)), (''b'', Def TypeU (Fin 3)),
        (omit rnd, Number (Fin 4)), (''c'', Def TypeI (Fin 5)), (''d'', Def TypeBool (Fin 1))]"
  by (simp add: Object_fromEntries_def omit_def is_array_index_def is_digit_def)

lemma bin1: "to_binary8 85 = ''01010101''"
  by (simp add: to_binary8_def)
lemma bin2: "to_binary8 204 = ''11001100''"
  by (simp add: to_binary8_def)

lemma slice_middle:
  "slice (pre @ xs @ post) (Fin (int (length pre))) (Fin (int (length pre) + int (length xs)))
     = xs"
  by (simp add: slice_def nat_add_distrib)

lemma slice_middle2:
  "slice (pre @ x # y # post) (Fin (int (length pre))) (Fin (int (length pre) + 2)) = [x, y]"
  using slice_middle [of pre "[x, y]" post] by simp

lemma take_fields_Cons:
  "take_fields ((key, t, sz) # kvs) content =
     (if startsWith key ''//'' then take_fields kvs (slice_from content sz)
      else (key, typed_value t sz (parseInt2 (slice content (Fin 0) sz)))
             # take_fields kvs (slice_from content sz))"
  by (simp add: Let_def)

lemma slice_from_nat: "slice_from xs (Fin (int n)) = drop n xs"
  by (simp add: slice_from_def min_def)

lemma slice_zero_nat: "slice xs (Fin 0) (Fin (int n)) = take n xs"
  by (simp add: slice_def min_def)

lemma slice_from_numeral [simp]:
  "slice_from xs (Fin (numeral k)) = drop (numeral k) xs" "slice_from xs (Fin 1) = drop 1 xs"
  using slice_from_nat [of xs "numeral k"] slice_from_nat [of xs 1] by simp_all

lemma slice_zero_numeral [simp]:
  "slice xs (Fin 0) (Fin (numeral k)) = take (numeral k) xs"
  "slice xs (Fin 0) (Fin 1) = take 1 xs"
  using slice_zero_nat [of xs "numeral k"] slice_zero_nat [of xs 1] by simp_all

lemma bitfield_handler_steps:
  assumes "list_all (\<lambda>(key, d). has_size d) (Object_fromEntries field)"
    and "endian' = (case opt_endian of Some e \<Rightarrow> e | None \<Rightarrow> endian c)"
    and "first' = (case opt_first of Some f \<Rightarrow> f | None \<Rightarrow> if endian' = Big then MSb else LSb)"
    and "fld = Object_fromEntries field"
    and "kvs_a = map (\<lambda>(key, d). (key, definition_of d)) fld"
    and "bitSize = foldl (\<lambda>sum (key, t, sz). js_add sum sz) (Fin 0) kvs_a"
    and "byteSize = ceil8 bitSize"
    and "endPadding = js_sub (times8 byteSize) bitSize"
    and "kvs_b = (if truthy endPadding then kvs_a @ [(omit rnd, TypeU, endPadding)] else kvs_a)"
    and "kvs = (if first' = LSb then rev kvs_b else kvs_b)"
    and "bytes_a = slice dv (offset c) (js_add (offset c) byteSize)"
    and "bytes = (if endian' = Little then rev bytes_a else bytes_a)"
    and "content = concat (map to_binary8 bytes)"
    and "result = Object_fromEntries (take_fields kvs content)"
    and "out = Object_fromEntries
           (map (\<lambda>key. (key, case obj_get result key of Some v \<Rightarrow> v | None \<Rightarrow> VUndefined))
              (filter (\<lambda>key. \<not> startsWith key ''//'') (Object_keys fld)))"
  shows "bitfield_handler rnd field opt_endian opt_first dv c
         = Inr (VObject out, set_offset (js_add (offset c) byteSize) c)"
proof -
  have "bitfield_handler rnd field opt_endian opt_first dv c
      = (let endian' = (case opt_endian of Some e \<Rightarrow> e | None \<Rightarrow> endian c);
          first' = (case opt_first of Some f \<Rightarrow> f
                    | None \<Rightarrow> if endian' = Big then MSb else LSb);
          kvs = map (\<lambda>(key, d). (key, definition_of d)) (Object_fromEntries field);
          bitSize = foldl (\<lambda>sum (key, t, sz). js_add sum sz) (Fin 0) kvs;
          byteSize = ceil8 bitSize;
          endPadding = js_sub (times8 byteSize) bitSize;
          kvs = (if truthy endPadding then kvs @ [(omit rnd, TypeU, endPadding)] else kvs);
          kvs = (if first' = LSb then rev kvs else kvs);
          bytes = slice dv (offset c) (js_add (offset c) byteSize);
          bytes = (if endian' = Little then rev bytes else bytes);
          content = concat (map to_binary8 bytes);
          result = Object_fromEntries (take_fields kvs content)
       in Inr (VObject (Object_fromEntries
                (map (\<lambda>key. (key, case obj_get result key of Some v \<Rightarrow> v | None \<Rightarrow> VUndefined))
                   (filter (\<lambda>key. \<not> startsWith key ''//'')
                      (Object_keys (Object_fromEntries field))))),
              set_offset (js_add (offset c) byteSize) c))"
    unfolding bitfield_handler_def using assms(1) by (rule if_P)
  also have "\<dots> = Inr (VObject out, set_offset (js_add (offset c) byteSize) c)"
    unfolding Let_def assms(2-) by (rule refl)
  finally show ?thesis .
qed

lemma bitfield_handler_TypeError:
  "\<not> list_all (\<lambda>(key, d). has_size d) (Object_fromEntries field) \<Longrightarrow>
   bitfield_handler rnd field opt_endian opt_first dv c = Inl TypeError"
  unfolding bitfield_handler_def by (rule if_not_P)

text \<open>
  The random part of the padding key has no effect: the key is only tested for its prefix,
  and its entry is dropped.
\<close>

lemma take_fields_omit_key:
  "take_fields (xs @ (omit r, t, sz) # ys) content
     = take_fields (xs @ (omit r', t, sz) # ys) content"
proof (induction xs arbitrary: content)
  case Nil
  show ?case by (simp add: take_fields_Cons startsWith_omit del: take_fields.simps(2))
next
  case (Cons x xs)
  obtain key t' sz' where x: "x = (key, t', sz')" by (cases x)
  show ?case
    using Cons.IH by (simp add: x take_fields_Cons del: take_fields.simps(2))
qed

lemma bitfield_handler_random:
  "bitfield_handler r field oe ofi dv c = bitfield_handler r' field oe ofi dv c"
proof (cases "list_all (\<lambda>(key, d). has_size d) (Object_fromEntries field)")
  case False
  then show ?thesis by (simp add: bitfield_handler_TypeError)
next
  case sized: True
  define endian' where "endian' = (case oe of Some e \<Rightarrow> e | None \<Rightarrow> endian c)"
  define first' where
    "first' = (case ofi of Some f \<Rightarrow> f | None \<Rightarrow> if endian' = Big then MSb else LSb)"
  define fld where "fld = Object_fromEntries field"
  define kvs_a where "kvs_a = map (\<lambda>(key, d). (key, definition_of d)) fld"
  define bitSize where "bitSize = foldl (\<lambda>sum (key, t, sz). js_add sum sz) (Fin 0) kvs_a"
  define byteSize where "byteSize = ceil8 bitSize"
  define endPadding where "endPadding = js_sub (times8 byteSize) bitSize"
  define kvs_b where
    "kvs_b rnd = (if truthy endPadding then kvs_a @ [(omit rnd, TypeU, endPadding)] else kvs_a)"
    for rnd
  define kvs where "kvs rnd = (if first' = LSb then rev (kvs_b rnd) else kvs_b rnd)" for rnd
  define bytes_a where "bytes_a = slice dv (offset c) (js_add (offset c) byteSize)"
  define bytes where "bytes = (if endian' = Little then rev bytes_a else bytes_a)"
  define content where "content = concat (map to_binary8 bytes)"
  define result where "result rnd = Object_fromEntries (take_fields (kvs rnd) content)" for rnd
  define out where
    "out rnd = Object_fromEntries
       (map (\<lambda>key. (key, case obj_get (result rnd) key of Some v \<Rightarrow> v | None \<Rightarrow> VUndefined))
          (filter (\<lambda>key. \<not> startsWith key ''//'') (Object_keys fld)))" for rnd
  have step: "bitfield_handler rnd field oe ofi dv c
      = Inr (VObject (out rnd), set_offset (js_add (offset c) byteSize) c)" for rnd
    by (rule bitfield_handler_steps [OF sized endian'_def first'_def fld_def kvs_a_def
          bitSize_def byteSize_def endPadding_def kvs_b_def kvs_def bytes_a_def bytes_def
          content_def result_def out_def])
  have "take_fields (kvs r) content = take_fields (kvs r') content"
    using take_fields_omit_key [of kvs_a r TypeU endPadding "[]" content r']
      take_fields_omit_key [of "[]" r TypeU endPadding "rev kvs_a" content r']
    by (simp add: kvs_def kvs_b_def del: take_fields.simps)
  then have "out r = out r'"
    by (simp add: out_def result_def)
  with step [of r] step [of r'] show ?thesis by simp
qed

section \<open>The bitfield example\<close>

text \<open>
  Claim C1. The layout \<^verbatim>\<open>{a: 3, b: bitfield.u(3), [omit('padding')]: 4, c: bitfield.i(5),
  d: bitfield.bool()}\<close> is decoded from the two bytes \<^verbatim>\<open>0b01010101\<close> (85) and \<^verbatim>\<open>0b11001100\<close>
  (204) under big-endian byte order and the default bit numbering (no option given, so
  \<^verbatim>\<open>MSb\<close>). Wherever the two bytes stand in the buffer, with the context offset on the
  first of them, and whatever random key \<^verbatim>\<open>omit\<close> made for the padding, the handler returns
  exactly \<^verbatim>\<open>{a: 2, b: 5, c: 6, d: false}\<close>, in this order and without the padding, and the
  context is the same but for its offset, which is 2 larger.
\<close>

theorem bitfield_example:
  "exec (pre @ [85, 204] @ post)
     (BitfieldP [(''a'', Number (Fin 3)), (''b'', Def TypeU (Fin 3)), (omit rnd, Number (Fin 4)),
        (''c'', Def TypeI (Fin 5)), (''d'', Def TypeBool (Fin 1))] None None)
     (Ctx Big p (Fin (int (length pre))) d)
   = Inr (VObject [(''a'', VNumber 2), (''b'', VNumber 5), (''c'', VNumber 6), (''d'', VBoolean False)],
          Ctx Big p (Fin (int (length pre) + 2)) d)"
proof -
  let ?c = "Ctx Big p (Fin (int (length pre))) d"
  let ?field = "[(''a'', Number (Fin 3)), (''b'', Def TypeU (Fin 3)), (omit rnd, Number (Fin 4)),
        (''c'', Def TypeI (Fin 5)), (''d'', Def TypeBool (Fin 1))]"
  let ?kvs = "[(''a'', TypeU, Fin 3), (''b'', TypeU, Fin 3), (omit rnd, TypeU, Fin 4),
        (''c'', TypeI, Fin 5), (''d'', TypeBool, Fin 1)]"
  let ?res = "[(''a'', VNumber 2), (''b'', VNumber 5), (''c'', VNumber 6), (''d'', VBoolean False)]"
  have "bitfield_handler [] ?field None None (pre @ [85, 204] @ post) ?c
      = Inr (VObject ?res, set_offset (js_add (offset ?c) (Fin 2)) ?c)"
  proof (rule bitfield_handler_steps [where endian' = Big and first' = MSb
        and bitSize = "Fin 16" and endPadding = "Fin 0" and kvs_a = ?kvs and kvs_b = ?kvs
        and kvs = ?kvs and bytes_a = "[85, 204]" and bytes = "[85, 204]"
        and content = "''0101010111001100''" and result = ?res and fld = ?field])
    show "list_all (\<lambda>(key, d). has_size d) (Object_fromEntries ?field)"
      by (simp add: layout_entries)
    show "?field = Object_fromEntries ?field"
      by (simp add: layout_entries)
    show "''0101010111001100'' = concat (map to_binary8 [85, 204])"
      by (simp add: bin1 bin2)
    show "?res = Object_fromEntries (take_fields ?kvs ''0101010111001100'')"
    proof -
      have "take_fields ?kvs ''0101010111001100'' = ?res"
        by (simp add: take_fields_Cons startsWith_def omit_def
          parseInt2_def js_sub_def del: take_fields.simps(2))
      moreover have "Object_fromEntries ?res = ?res"
        by (simp add: Object_fromEntries_def is_array_index_def is_digit_def)
      ultimately show ?thesis by simp
    qed
    show "[85, 204] = slice (pre @ [85, 204] @ post) (offset ?c) (js_add (offset ?c) (Fin 2))"
      by (simp add: slice_middle2)
    show "?res = Object_fromEntries
           (map (\<lambda>key. (key, case obj_get ?res key of Some v \<Rightarrow> v | None \<Rightarrow> VUndefined))
              (filter (\<lambda>key. \<not> startsWith key ''//'') (Object_keys ?field)))"
      by (simp add: startsWith_def omit_def Object_keys_def obj_get_def
           Object_fromEntries_def is_array_index_def is_digit_def)
  qed (simp_all add: js_sub_def)
  then show ?thesis by (simp add: set_offset_def)
qed

section \<open>Fixed-width reads\<close>









section \<open>Reasoning about the interpreter\<close>

lemma set_offset_simps [simp]:
  "endian (set_offset n c) = endian c" "parent (set_offset n c) = parent c"
  "offset (set_offset n c) = n" "data (set_offset n c) = data c"
  by (simp_all add: set_offset_def)

lemma set_data_simps [simp]:
  "endian (set_data d c) = endian c" "parent (set_data d c) = parent c"
  "offset (set_data d c) = offset c" "data (set_data d c) = d"
  by (simp_all add: set_data_def)

lemma store_simps [simp]:
  "endian (store key r c) = endian c" "parent (store key r c) = parent c"
  "offset (store key r c) = offset c"
  by (simp_all add: store_def)

text \<open>
  Induction over the calls of the interpreter, with the result of an earlier call named
  where a later call depends on it.
\<close>

lemma exec_induct [case_names Typed Bool String Array Bitfield Ternary Convert Seek Peek
    Skip Seq Obj Lit map_Nil map_Cons forEach_Nil forEach_Cons from_0 from_Suc]:
  fixes P :: "byte list \<Rightarrow> pattern \<Rightarrow> ctx \<Rightarrow> bool"
    and Q :: "byte list \<Rightarrow> pattern list \<Rightarrow> ctx \<Rightarrow> bool"
    and R :: "byte list \<Rightarrow> (string \<times> pattern) list \<Rightarrow> ctx \<Rightarrow> bool"
    and S :: "byte list \<Rightarrow> pattern \<Rightarrow> nat \<Rightarrow> ctx \<Rightarrow> bool"
  assumes "\<And>dv k le c. P dv (TypedP k le) c"
    and "\<And>dv c. P dv BoolP c"
    and "\<And>dv sz decode c. P dv (StringP sz decode) c"
    and "\<And>dv p sz c.
          (\<And>C n. BINPAT_ARRAY p = Inr C \<Longrightarrow> array_from C (resolve sz c) = Inr n \<Longrightarrow>
             S dv p n c) \<Longrightarrow>
          P dv (ArrayP p sz) c"
    and "\<And>dv field opt_endian opt_first c. P dv (BitfieldP field opt_endian opt_first) c"
    and "\<And>dv condition t f c.
          (condition c \<Longrightarrow> P dv t c) \<Longrightarrow>
          (\<And>p. \<not> condition c \<Longrightarrow> f = Some p \<Longrightarrow> P dv p c) \<Longrightarrow>
          P dv (TernaryP condition t f) c"
    and "\<And>dv p fn c. P dv p c \<Longrightarrow> P dv (ConvertP p fn) c"
    and "\<And>dv off c. P dv (SeekP off) c"
    and "\<And>dv off p c. P dv p (set_offset (resolve off c) c) \<Longrightarrow> P dv (PeekP off p) c"
    and "\<And>dv off c. P dv (SkipP off) c"
    and "\<And>dv ps c. Q dv ps c \<Longrightarrow> P dv (SeqP ps) c"
    and "\<And>dv entries c.
          R dv (Object_fromEntries entries) (Ctx (endian c) (Some c) (offset c) []) \<Longrightarrow>
          P dv (ObjP entries) c"
    and "\<And>dv v c. P dv (LitP v) c"
    and "\<And>dv c. Q dv [] c"
    and "\<And>dv pat ps c.
          P dv pat c \<Longrightarrow> (\<And>v c'. exec dv pat c = Inr (v, c') \<Longrightarrow> Q dv ps c') \<Longrightarrow>
          Q dv (pat # ps) c"
    and "\<And>dv c. R dv [] c"
    and "\<And>dv key pat entries c.
          P dv pat c \<Longrightarrow>
          (\<And>result c'. exec dv pat c = Inr (result, c') \<Longrightarrow> R dv entries (store key result c')) \<Longrightarrow>
          R dv ((key, pat) # entries) c"
    and "\<And>dv p c. S dv p 0 c"
    and "\<And>dv p n c.
          P dv p c \<Longrightarrow> (\<And>v c'. exec dv p c = Inr (v, c') \<Longrightarrow> S dv p n c') \<Longrightarrow>
          S dv p (Suc n) c"
  shows "P dv p c" and "Q dv ps c" and "R dv es c" and "S dv p n c"
proof (induction dv p c and dv ps c and dv es c and dv p n c
    rule: exec_exec_map_exec_forEach_exec_from.induct)
  case (1 dv k le c)
  show ?case by (rule assms(1))
next
  case (2 dv c)
  show ?case by (rule assms(2))
next
  case (3 dv sz decode c)
  show ?case by (rule assms(3))
next
  case (4 dv p sz c)
  show ?case
  proof (rule assms(4))
    fix C n
    assume "BINPAT_ARRAY p = Inr C" and "array_from C (resolve sz c) = Inr n"
    then show "S dv p n c"
      by (rule 4 [OF refl])
  qed
next
  case (5 dv field opt_endian opt_first c)
  show ?case by (rule assms(5))
next
  case (6 dv condition t f c)
  show ?case
  proof (rule assms(6))
    show "condition c \<Longrightarrow> P dv t c" by (rule 6(1))
    show "\<And>p. \<not> condition c \<Longrightarrow> f = Some p \<Longrightarrow> P dv p c" by (rule 6(2))
  qed
next
  case (7 dv p fn c)
  show ?case by (rule assms(7)) (rule 7)
next
  case (8 dv off c)
  show ?case by (rule assms(8))
next
  case (9 dv off p c)
  show ?case by (rule assms(9)) (rule 9, rule refl)
next
  case (10 dv off c)
  show ?case by (rule assms(10))
next
  case (11 dv ps c)
  show ?case by (rule assms(11)) (rule 11)
next
  case (12 dv entries parent')
  show ?case by (rule assms(12)) (rule 12)
next
  case (13 dv v c)
  show ?case by (rule assms(13))
next
  case (14 dv c)
  show ?case by (rule assms(14))
next
  case (15 dv pat ps c)
  show ?case
  proof (rule assms(15))
    show "P dv pat c" by (rule 15(1))
    show "\<And>v c'. exec dv pat c = Inr (v, c') \<Longrightarrow> Q dv ps c'"
      by (rule 15(2)) (assumption, rule refl)
  qed
next
  case (16 dv c)
  show ?case by (rule assms(16))
next
  case (17 dv key pat entries c)
  show ?case
  proof (rule assms(17))
    show "P dv pat c" by (rule 17(1))
    show "\<And>result c'. exec dv pat c = Inr (result, c') \<Longrightarrow> R dv entries (store key result c')"
      by (rule 17(2)) (assumption, rule refl)
  qed
next
  case (18 dv p c)
  show ?case by (rule assms(18))
next
  case (19 dv p n c)
  show ?case
  proof (rule assms(19))
    show "P dv p c" by (rule 19(1))
    show "\<And>v c'. exec dv p c = Inr (v, c') \<Longrightarrow> S dv p n c'"
      by (rule 19(2)) (assumption, rule refl)
  qed
qed

lemma same_frame_refl [simp]: "same_frame c c"
  by (simp add: same_frame_def)

lemma same_frame_set_offset [simp]: "same_frame c (set_offset n c)"
  by (simp add: same_frame_def)

lemma same_frame_set_offset_right [simp]: "same_frame c (set_offset n c') = same_frame c c'"
  by (simp add: same_frame_def)

lemma same_frame_set_offset_left [simp]: "same_frame (set_offset n c) c' = same_frame c c'"
  by (simp add: same_frame_def)

lemma same_frame_trans: "same_frame a b \<Longrightarrow> same_frame b c \<Longrightarrow> same_frame a c"
  by (simp add: same_frame_def)

lemma same_scope_refl [simp]: "same_scope c c"
  by (simp add: same_scope_def)

lemma same_scope_store: "same_frame c c' \<Longrightarrow> same_scope (store key r c') c'' \<Longrightarrow> same_scope c c''"
  by (simp add: same_frame_def same_scope_def)

lemma bitfield_handler_offset:
  "list_all (\<lambda>(key, d). has_size d) (Object_fromEntries field) \<Longrightarrow>
   \<exists>out. bitfield_handler rnd field oe ofi dv c
     = Inr (VObject out, set_offset (js_add (offset c) (byte_size field)) c)"
  unfolding byte_size_def
  using bitfield_handler_steps [OF _ refl refl refl refl refl refl refl refl refl refl refl
      refl refl refl, of field rnd oe ofi dv c]
  by blast

lemma bitfield_handler_ctx:
  "bitfield_handler rnd field oe ofi dv c = Inr (v, c') \<Longrightarrow> \<exists>n. c' = set_offset n c"
proof (cases "list_all (\<lambda>(key, d). has_size d) (Object_fromEntries field)")
  case True
  assume "bitfield_handler rnd field oe ofi dv c = Inr (v, c')"
  with bitfield_handler_offset [OF True, of rnd oe ofi dv c] show ?thesis
    by auto
next
  case False
  assume "bitfield_handler rnd field oe ofi dv c = Inr (v, c')"
  with bitfield_handler_TypeError [OF False, of rnd oe ofi dv c] show ?thesis
    by simp
qed

lemma exec_frame_all:
  "(\<forall>v c'. exec dv p c = Inr (v, c') \<longrightarrow> same_frame c c')"
  "(\<forall>vs c'. exec_map dv ps c = Inr (vs, c') \<longrightarrow> same_frame c c')"
  "(\<forall>c'. exec_forEach dv es c = Inr c' \<longrightarrow> same_scope c c')"
  "(\<forall>vs c'. exec_from dv p n c = Inr (vs, c') \<longrightarrow> same_frame c c')"
proof (induction dv p c and dv ps c and dv es c and dv p n c rule: exec_induct)
  case (Typed dv k le c)
  then show ?case
    by (auto simp: createTypedHandler_def Let_def split: sum.splits)
next
  case (Bool dv c)
  then show ?case
    by (auto simp: bool_handler_def split: sum.splits)
next
  case (String dv sz decode c)
  then show ?case
    by (auto simp: string_handler_def Let_def split: sum.splits)
next
  case (Array dv p sz c)
  then show ?case
    by (auto simp: Let_def split: sum.splits)
next
  case (Bitfield dv field opt_endian opt_first c)
  then show ?case
    by (auto dest: bitfield_handler_ctx)
next
  case (Ternary dv condition t f c)
  then show ?case
    by (auto split: option.splits if_splits)
next
  case (Convert dv p fn c)
  then show ?case
    by (auto split: sum.splits)
next
  case (Seek dv off c)
  then show ?case
    by (auto simp: seek_handler_def)
next
  case (Peek dv off p c)
  then show ?case
    by (auto simp: Let_def split: sum.splits)
next
  case (Skip dv off c)
  then show ?case
    by (auto simp: skip_handler_def)
next
  case (Seq dv ps c)
  then show ?case
    by (auto split: sum.splits)
next
  case (Obj dv entries c)
  then show ?case
    by (auto simp: same_frame_def split: sum.splits)
next
  case (Lit dv v c)
  then show ?case by simp
next
  case (map_Nil dv c)
  then show ?case by simp
next
  case (map_Cons dv pat ps c)
  then show ?case
    by (auto split: sum.splits intro: same_frame_trans)
next
  case (forEach_Nil dv c)
  then show ?case by simp
next
  case (forEach_Cons dv key pat entries c)
  then show ?case
    by (auto split: sum.splits intro: same_scope_store)
next
  case (from_0 dv p c)
  then show ?case by simp
next
  case (from_Suc dv p n c)
  then show ?case
    by (auto split: sum.splits intro: same_frame_trans)
qed

lemma exec_frame: "exec dv p c = Inr (v, c') \<Longrightarrow> same_frame c c'"
  using exec_frame_all(1) by blast

lemma exec_forEach_scope: "exec_forEach dv es c = Inr c' \<Longrightarrow> same_scope c c'"
  using exec_frame_all(3) by blast

lemma same_frame_restore: "same_frame c c' \<Longrightarrow> set_offset (offset c) c' = c"
  by (cases c, cases c') (simp add: same_frame_def set_offset_def)

text \<open>The definitions that evaluate a decode on a concrete buffer.\<close>

lemmas decode_defs =
  u8_def u16_def u32_def i8_def i16_def i32_def root_context_def Binpat_exec_def
  createTypedHandler_def bool_handler_def seek_handler_def skip_handler_def dv_get_def
  be_value_def twos_complement_def store_def startsWith_def set_offset_def set_data_def
  Object_fromEntries_def obj_spread_def obj_get_def is_array_index_def is_digit_def
  array_from_def

lemma exec_from_numeral:
  "exec_from dv p (numeral k) c =
     (case exec dv p c of
        Inl e \<Rightarrow> Inl e
      | Inr (v, c') \<Rightarrow>
          (case exec_from dv p (pred_numeral k) c' of
             Inl e \<Rightarrow> Inl e
           | Inr (vs, c'') \<Rightarrow> Inr (v # vs, c'')))"
  by (simp add: numeral_eq_Suc)

section \<open>Peek\<close>

text \<open>
  Claim C5. For every target, a number or a function of the context, and every pattern,
  \<^verbatim>\<open>peek(target, pattern)\<close> returns the value that the pattern decodes with the context's
  offset set to the target, and the context after the call is the context before the call:
  the same offset, and the same of everything else. An error of the pattern is the error of
  the call. This holds for every inner pattern: an object pattern writes its final offset
  into the context, and \<^verbatim>\<open>peek\<close> then restores the saved offset, as the example shows for
  \<^verbatim>\<open>peek(2, {x: u8()})\<close> at offset 1, next to the same object pattern run at offset 2
  without \<^verbatim>\<open>peek\<close>.
\<close>

theorem peek_keeps_offset:
  "exec dv (PeekP target p) c =
     (case exec dv p (set_offset (resolve target c) c) of
        Inl e \<Rightarrow> Inl e
      | Inr (v, c') \<Rightarrow> Inr (v, c))"
proof (cases "exec dv p (set_offset (resolve target c) c)")
  case (Inl e)
  then show ?thesis by (simp add: Let_def)
next
  case (Inr r)
  obtain v c' where r: "r = (v, c')" by (cases r)
  from Inr r have "same_frame (set_offset (resolve target c) c) c'"
    by (auto dest: exec_frame)
  then have "set_offset (offset c) c' = c"
    by (simp add: same_frame_restore)
  with Inr r show ?thesis by (simp add: Let_def)
qed

theorem peek_structure_example:
  "exec [1, 2, 3] (PeekP (Num (Fin 2)) (ObjP [(''x'', u8)])) (Ctx Big None (Fin 1) [])
     = Inr (VObject [(''x'', VNumber 3)], Ctx Big None (Fin 1) [])
   \<and> exec [1, 2, 3] (ObjP [(''x'', u8)]) (Ctx Big None (Fin 2) [])
     = Inr (VObject [(''x'', VNumber 3)], Ctx Big None (Fin 3) [])"
  using peek_keeps_offset [of "[1, 2, 3]" "Num (Fin 2)" "ObjP [(''x'', u8)]"
      "Ctx Big None (Fin 1) []"]
  by (simp add: u8_def Object_fromEntries_def createTypedHandler_def dv_get_def be_value_def
      store_def startsWith_def set_offset_def set_data_def)

section \<open>The offset of an object pattern\<close>

text \<open>
  Claim C4. When an object pattern completes on a calling context, the loop over its
  entries has completed on the pattern's own child context (made with the caller's
  endianness and offset, the caller as parent and empty data); the value is the child's
  data, and the calling context is as before but for its offset, which is the final offset of
  the child: its endianness, parent and data are unchanged.
\<close>

theorem structure_offset_bubbles_up:
  assumes "exec dv (ObjP entries) c = Inr (v, c')"
  shows "\<exists>child.
           exec_forEach dv (Object_fromEntries entries) (Ctx (endian c) (Some c) (offset c) [])
             = Inr child
         \<and> v = VObject (data child)
         \<and> endian child = endian c \<and> parent child = Some c
         \<and> offset c' = offset child
         \<and> endian c' = endian c \<and> parent c' = parent c \<and> data c' = data c"
proof -
  from assms obtain child where
    child: "exec_forEach dv (Object_fromEntries entries) (Ctx (endian c) (Some c) (offset c) [])
             = Inr child"
    and res: "v = VObject (data child)" "c' = set_offset (offset child) c"
    by (auto split: sum.splits)
  from exec_forEach_scope [OF child] have "endian child = endian c \<and> parent child = Some c"
    by (simp add: same_scope_def)
  with child res show ?thesis by simp
qed

theorem structure_offset_example:
  "exec [1, 2, 3] (ObjP [(''foo'', u8), (''//bar'', u8), (''baz'', u8)])
       (Ctx Little None (Fin 0) [(''k'', VNumber 7)])
     = Inr (VObject [(''foo'', VNumber 1), (''baz'', VNumber 3)],
            Ctx Little None (Fin 3) [(''k'', VNumber 7)])
   \<and> (\<exists>child.
         exec_forEach [1, 2, 3] (Object_fromEntries [(''foo'', u8), (''//bar'', u8), (''baz'', u8)])
           (Ctx Little (Some (Ctx Little None (Fin 0) [(''k'', VNumber 7)])) (Fin 0) []) = Inr child
         \<and> offset child = Fin 3)"
proof -
  have run: "exec [1, 2, 3] (ObjP [(''foo'', u8), (''//bar'', u8), (''baz'', u8)])
       (Ctx Little None (Fin 0) [(''k'', VNumber 7)])
     = Inr (VObject [(''foo'', VNumber 1), (''baz'', VNumber 3)],
            Ctx Little None (Fin 3) [(''k'', VNumber 7)])"
    by (simp add: decode_defs)
  from structure_offset_bubbles_up [OF run] show ?thesis
    using run by auto
qed

section \<open>Arrays\<close>

text \<open>
  The elements of an array are decoded one after another on one context: there is a chain
  of contexts \<open>cs\<close>, from the context at entry to the context at exit, and element \<open>i\<close> is
  what the pattern returns on \<open>cs ! i\<close>, leaving \<open>cs ! (i + 1)\<close>.
\<close>

lemma exec_from_chain:
  "exec_from dv p n c = Inr (vs, c') \<Longrightarrow>
     length vs = n \<and>
     (\<exists>cs. length cs = Suc n \<and> cs ! 0 = c \<and> cs ! n = c' \<and>
        (\<forall>i<n. exec dv p (cs ! i) = Inr (vs ! i, cs ! Suc i)))"
proof (induction n arbitrary: c vs)
  case 0
  then have "vs = []" and "c' = c" by simp_all
  then have "length [c] = Suc 0 \<and> [c] ! 0 = c \<and> [c] ! 0 = c'
      \<and> (\<forall>i<0. exec dv p ([c] ! i) = Inr (vs ! i, [c] ! Suc i))"
    by simp
  with \<open>vs = []\<close> show ?case by (intro conjI exI [of _ "[c]"]) simp_all
next
  case (Suc n)
  from Suc.prems obtain v c1 ws where
    first: "exec dv p c = Inr (v, c1)" and rest: "exec_from dv p n c1 = Inr (ws, c')"
    and vs: "vs = v # ws"
    by (auto split: sum.splits)
  from Suc.IH [OF rest] obtain cs where len: "length ws = n"
    and cs: "length cs = Suc n" "cs ! 0 = c1" "cs ! n = c'"
    and elems: "\<And>i. i < n \<Longrightarrow> exec dv p (cs ! i) = Inr (ws ! i, cs ! Suc i)"
    by blast
  have "exec dv p ((c # cs) ! i) = Inr (vs ! i, (c # cs) ! Suc i)" if "i < Suc n" for i
  proof (cases i)
    case 0
    with first vs cs show ?thesis by simp
  next
    case (Suc j)
    with that have "j < n" by simp
    from elems [OF this] Suc vs show ?thesis by simp
  qed
  with cs have "length (c # cs) = Suc (Suc n) \<and> (c # cs) ! 0 = c \<and> (c # cs) ! Suc n = c'
      \<and> (\<forall>i<Suc n. exec dv p ((c # cs) ! i) = Inr (vs ! i, (c # cs) ! Suc i))"
    by simp
  then have "\<exists>cs. length cs = Suc (Suc n) \<and> cs ! 0 = c \<and> cs ! Suc n = c'
      \<and> (\<forall>i<Suc n. exec dv p (cs ! i) = Inr (vs ! i, cs ! Suc i))"
    by (rule exI)
  with len vs show ?case by simp
qed

text \<open>
  What \<^verbatim>\<open>array(pattern, size)\<close> has done when it completes. The size was taken once, on the
  context at entry; \<^verbatim>\<open>from\<close> made an array of \<^verbatim>\<open>ToLength\<close> of it elements (none for a size
  that is not positive, NaN or \<^verbatim>\<open>undefined\<close>); the pattern was then run once for each
  element, in order, each run on the context that the run before it left, the first on the
  context at entry, and the last leaving the context at exit; the value is the array of the
  results in this order, a typed array if the pattern is a fixed-width primitive and an
  array otherwise.
\<close>

lemma array_elements:
  assumes "exec dv (ArrayP p sz) c = Inr (v, c')"
  shows "\<exists>vs cs.
           array_from (case p of TypedP k le \<Rightarrow> Some k | _ \<Rightarrow> None) (resolve sz c)
             = Inr (length vs)
         \<and> length vs = ToLength (resolve sz c)
         \<and> length cs = Suc (length vs) \<and> cs ! 0 = c \<and> cs ! length vs = c'
         \<and> (\<forall>i<length vs. exec dv p (cs ! i) = Inr (vs ! i, cs ! Suc i))
         \<and> v = (case p of TypedP k le \<Rightarrow> VTypedArray k vs | _ \<Rightarrow> VArray vs)"
proof -
  from assms obtain C n vs where C: "BINPAT_ARRAY p = Inr C"
    and n: "array_from C (resolve sz c) = Inr n"
    and run: "exec_from dv p n c = Inr (vs, c')" and v: "v = array_of C vs"
    by (auto simp: Let_def split: sum.splits)
  from C have kind: "C = (case p of TypedP k le \<Rightarrow> Some k | _ \<Rightarrow> None)"
    by (cases "(p)" rule: BINPAT_ARRAY.cases) simp_all
  from n have size: "n = ToLength (resolve sz c)"
    by (auto simp: array_from_def Let_def split: option.splits if_splits)
  from exec_from_chain [OF run] obtain cs where "length vs = n"
    and "length cs = Suc n" "cs ! 0 = c" "cs ! n = c'"
    and "\<forall>i<n. exec dv p (cs ! i) = Inr (vs ! i, cs ! Suc i)"
    by blast
  moreover from v kind have "v = (case p of TypedP k le \<Rightarrow> VTypedArray k vs | _ \<Rightarrow> VArray vs)"
    by (cases p) simp_all
  ultimately show ?thesis
    using n kind size by blast
qed

text \<open>
  Claim C6 says that \<^verbatim>\<open>array(pattern, size)\<close> takes its size once and then runs the element
  pattern that many times, one run after another on the same context. This is what the
  handler does for the claim's own example, \<^verbatim>\<open>{count: u8(), items: array(u8(), (ctx) =>
  ctx.data.count)}\<close> on the bytes 3, 10, 20, 30, 99, which gives count 3 and the items 10,
  20, 30 in a \<^verbatim>\<open>Uint8Array\<close>. It is not what the handler does when the element pattern is
  \<^verbatim>\<open>u64()\<close> or \<^verbatim>\<open>i64()\<close>. The handler makes the array for the results with
  \<^verbatim>\<open>BigUint64Array.from({ length: len })\<close> (or \<^verbatim>\<open>BigInt64Array\<close>), and for a length of 1 or
  more \<^verbatim>\<open>from\<close> raises \<^verbatim>\<open>TypeError\<close> at its first element, \<^verbatim>\<open>undefined\<close>, before the pattern
  is run at all (or \<^verbatim>\<open>RangeError\<close>, when the array would take more than \<open>2 ^ 53 - 1\<close>
  bytes). So \<^verbatim>\<open>array(u64(), 1)\<close> on eight bytes raises \<^verbatim>\<open>TypeError\<close>, where \<^verbatim>\<open>u64()\<close> alone
  decodes them, and so does the claim's example with \<^verbatim>\<open>i64()\<close> for the items. The
  documentation of \<^verbatim>\<open>array\<close> promises a typed array for every primitive element pattern.
\<close>

theorem array_of_bigints_raises:
  "exec dv (ArrayP (TypedP BigUint64Array le) sz) c =
     (if ToLength (resolve sz c) = 0 then Inr (VTypedArray BigUint64Array [], c)
      else if 9007199254740991 < ToLength (resolve sz c) * 8 then Inl RangeError
      else Inl TypeError)
   \<and> exec dv (ArrayP (TypedP BigInt64Array le) sz) c =
     (if ToLength (resolve sz c) = 0 then Inr (VTypedArray BigInt64Array [], c)
      else if 9007199254740991 < ToLength (resolve sz c) * 8 then Inl RangeError
      else Inl TypeError)
   \<and> Binpat_exec (ArrayP (u64 None) (Num (Fin 1))) None [0, 0, 0, 0, 0, 0, 0, 7]
       = Inl TypeError
   \<and> Binpat_exec (u64 None) None [0, 0, 0, 0, 0, 0, 0, 7] = Inr (VBigInt 7)
   \<and> Binpat_exec (ObjP [(''count'', u8), (''items'', ArrayP (i64 None) (Fn (data_number ''count'')))])
       None [1, 0, 0, 0, 0, 0, 0, 0, 7]
       = Inl TypeError
   \<and> Binpat_exec (ObjP [(''count'', u8), (''items'', ArrayP u8 (Fn (data_number ''count'')))])
       None [3, 10, 20, 30, 99]
       = Inr (VObject [(''count'', VNumber 3),
                (''items'', VTypedArray Uint8Array [VNumber 10, VNumber 20, VNumber 30])])"
proof -
  have big: "exec dv (ArrayP (TypedP k le) sz) c =
     (if ToLength (resolve sz c) = 0 then Inr (VTypedArray k [], c)
      else if 9007199254740991 < ToLength (resolve sz c) * 8 then Inl RangeError
      else Inl TypeError)"
    if "k = BigUint64Array \<or> k = BigInt64Array" for k
    using that by (auto simp: array_from_def Let_def)
  have one: "Binpat_exec (ArrayP (u64 None) (Num (Fin 1))) None [0, 0, 0, 0, 0, 0, 0, 7]
       = Inl TypeError"
    by (simp add: u64_def Binpat_exec_def array_from_def)
  have alone: "Binpat_exec (u64 None) None [0, 0, 0, 0, 0, 0, 0, 7] = Inr (VBigInt 7)"
    by (simp add: u64_def decode_defs)
  have items: "Binpat_exec
       (ObjP [(''count'', u8), (''items'', ArrayP (i64 None) (Fn (data_number ''count'')))])
       None [1, 0, 0, 0, 0, 0, 0, 0, 7] = Inl TypeError"
    by (simp add: decode_defs i64_def data_number_def)
  have example: "Binpat_exec
       (ObjP [(''count'', u8), (''items'', ArrayP u8 (Fn (data_number ''count'')))])
       None [3, 10, 20, 30, 99]
       = Inr (VObject [(''count'', VNumber 3),
                (''items'', VTypedArray Uint8Array [VNumber 10, VNumber 20, VNumber 30])])"
    by (simp add: decode_defs data_number_def exec_from_numeral)
  from big [of BigUint64Array] big [of BigInt64Array] one alone items example
  show ?thesis by simp
qed

section \<open>Keys that omit and spread\<close>



section \<open>Spreading a value that is not an object\<close>

lemma dec_string_0: "dec_string 0 = ''0''"
  by code_simp

lemma dec_string_1: "dec_string (Suc 0) = ''1''"
  by code_simp

text \<open>
  Claim C8 says that a spread key whose pattern decodes to a value that is not a mapping
  makes the decode report an error. The interpreter has no such check: the step is the
  object spread \<^verbatim>\<open>{...ctx.data, ...result}\<close>, which accepts every value. In
  \<^verbatim>\<open>{a: u8(), [spread()]: u8(), c: u8()}\<close> on the bytes 10, 20, 30 the number 20 is dropped
  and the decode returns \<^verbatim>\<open>{a: 10, c: 30}\<close>; with the native array \<^verbatim>\<open>[u8(), u8()]\<close> under the
  spread key, on 10, 20, 30, 40, the elements come into the result under the keys 0 and 1
  (array indices, listed first).
\<close>

theorem spread_non_mapping_counterexample:
  "Binpat_exec (ObjP [(''a'', u8), (spread ''1f'', u8), (''c'', u8)]) None [10, 20, 30]
     = Inr (VObject [(''a'', VNumber 10), (''c'', VNumber 30)])
   \<and> Binpat_exec (ObjP [(''a'', u8), (spread ''1f'', SeqP [u8, u8]), (''c'', u8)]) None
         [10, 20, 30, 40]
     = Inr (VObject [(''0'', VNumber 20), (''1'', VNumber 30), (''a'', VNumber 10),
              (''c'', VNumber 40)])"
  by (simp add: decode_defs spread_def index_entries_def dec_string_0 dec_string_1 dec_value_def)

text \<open>
  Claim C8, amended. If the pattern of a spread key decodes to any value, mapping or not,
  no error is reported: the loop goes on to the next entry with the data replaced by the
  spread of the data and the value. A value with no own properties (\<^verbatim>\<open>undefined\<close>, a number,
  a bigint, a boolean) adds nothing: the data is a copy of the data before. An array or a
  typed array adds its elements, and a string its characters, under their indices.
\<close>

theorem spread_non_mapping_no_error:
  assumes "startsWith key ''...''" and "exec dv pat c = Inr (r, c')"
  shows "exec_forEach dv ((key, pat) # es) c
           = exec_forEach dv es (set_data (obj_spread (data c') r) c')
         \<and> (own_entries r = [] \<longrightarrow> obj_spread (data c') r = Object_fromEntries (data c'))
         \<and> own_entries VUndefined = [] \<and> own_entries VNaN = []
         \<and> own_entries (VNumber n) = [] \<and> own_entries (VBigInt n) = []
         \<and> own_entries (VFloat k b) = [] \<and> own_entries (VBoolean t) = []
         \<and> own_entries (VArray vs) = index_entries vs
         \<and> own_entries (VTypedArray k vs) = index_entries vs
         \<and> own_entries (VString s) = index_entries (map (\<lambda>ch. VString [ch]) s)"
  using assms by (simp add: store_def obj_spread_def)

theorem spread_non_mapping_witness:
  "exec_forEach [10, 20, 30] [(''...s'', u8), (''c'', u8)]
       (Ctx Big None (Fin 1) [(''a'', VNumber 10)])
     = Inr (Ctx Big None (Fin 3) [(''a'', VNumber 10), (''c'', VNumber 30)])"
proof -
  have key: "startsWith ''...s'' ''...''"
    by (simp add: startsWith_def)
  have run: "exec [10, 20, 30] u8 (Ctx Big None (Fin 1) [(''a'', VNumber 10)])
      = Inr (VNumber 20, Ctx Big None (Fin 2) [(''a'', VNumber 10)])"
    by (simp add: decode_defs)
  from spread_non_mapping_no_error [OF key run, of "[(''c'', u8)]"] show ?thesis
    by (simp add: decode_defs)
qed

section \<open>Reading past the end of the buffer\<close>

lemma ascii_hi: "ascii [104, 105] = Inr ''hi''"
  by code_simp

lemma short_slice: "slice [104, 105 :: byte] (Fin 0) (Fin 4) = [104, 105]"
  by (simp add: slice_def)

text \<open>
  Claim C9 says that a primitive, string or bitfield read whose bytes extend past the end
  of the buffer fails with an error, and returns no truncated or partial value. The
  primitive reads do: the getters of \<^verbatim>\<open>DataView\<close> raise \<^verbatim>\<open>RangeError\<close>, so \<^verbatim>\<open>u32()\<close> on two
  bytes and \<^verbatim>\<open>bool()\<close> on no byte raise. \<^verbatim>\<open>string\<close> and \<^verbatim>\<open>bitfield\<close> do not: they take their
  bytes with \<^verbatim>\<open>dv.buffer.slice\<close>, which clamps the range to the buffer and raises nothing,
  and they have no check of their own. \<^verbatim>\<open>string(4)\<close> on the two bytes of "hi" returns "hi"
  and sets the offset to 4, past the end; the bitfield of claim C1, 16 bits wide, on the
  single byte 85 returns \<^verbatim>\<open>{a: 2, b: 5, c: NaN, d: false}\<close> and sets the offset to 2. The
  documentation of \<^verbatim>\<open>string\<close> says that it reads the given number of bytes.
\<close>

theorem read_past_end_truncates:
  "exec [104, 105] (StringP (Num (Fin 4)) ascii) (Ctx Big None (Fin 0) [])
       = Inr (VString ''hi'', Ctx Big None (Fin 4) [])
   \<and> exec [85]
        (BitfieldP [(''a'', Number (Fin 3)), (''b'', Def TypeU (Fin 3)), (''//'', Number (Fin 4)),
           (''c'', Def TypeI (Fin 5)), (''d'', Def TypeBool (Fin 1))] None None)
        (Ctx Big None (Fin 0) [])
       = Inr (VObject [(''a'', VNumber 2), (''b'', VNumber 5), (''c'', VNaN),
                (''d'', VBoolean False)], Ctx Big None (Fin 2) [])
   \<and> exec [104, 105] (u32 None) (Ctx Big None (Fin 0) []) = Inl RangeError
   \<and> exec [] BoolP (Ctx Big None (Fin 0) []) = Inl RangeError"
proof -
  have str: "exec [104, 105] (StringP (Num (Fin 4)) ascii) (Ctx Big None (Fin 0) [])
       = Inr (VString ''hi'', Ctx Big None (Fin 4) [])"
    by (simp add: string_handler_def short_slice ascii_hi set_offset_def)
  let ?c = "Ctx Big None (Fin 0) []"
  let ?field = "[(''a'', Number (Fin 3)), (''b'', Def TypeU (Fin 3)), (''//'', Number (Fin 4)),
           (''c'', Def TypeI (Fin 5)), (''d'', Def TypeBool (Fin 1))]"
  let ?kvs = "[(''a'', TypeU, Fin 3), (''b'', TypeU, Fin 3), (''//'', TypeU, Fin 4),
        (''c'', TypeI, Fin 5), (''d'', TypeBool, Fin 1)]"
  let ?res = "[(''a'', VNumber 2), (''b'', VNumber 5), (''c'', VNaN), (''d'', VBoolean False)]"
  have entries: "Object_fromEntries ?field = ?field"
    by (simp add: Object_fromEntries_def is_array_index_def is_digit_def)
  have "bitfield_handler [] ?field None None [85] ?c
      = Inr (VObject ?res, set_offset (js_add (offset ?c) (Fin 2)) ?c)"
  proof (rule bitfield_handler_steps [where endian' = Big and first' = MSb
        and bitSize = "Fin 16" and endPadding = "Fin 0" and kvs_a = ?kvs and kvs_b = ?kvs
        and kvs = ?kvs and bytes_a = "[85]" and bytes = "[85]" and content = "''01010101''"
        and result = ?res and fld = ?field])
    show "list_all (\<lambda>(key, d). has_size d) (Object_fromEntries ?field)"
      by (simp add: entries)
    show "?field = Object_fromEntries ?field"
      by (simp add: entries)
    show "''01010101'' = concat (map to_binary8 [85])"
      by (simp add: bin1)
    show "?res = Object_fromEntries (take_fields ?kvs ''01010101'')"
    proof -
      have "take_fields ?kvs ''01010101'' = ?res"
        by (simp add: take_fields_Cons startsWith_def parseInt2_def js_sub_def
            del: take_fields.simps(2))
      moreover have "Object_fromEntries ?res = ?res"
        by (simp add: Object_fromEntries_def is_array_index_def is_digit_def)
      ultimately show ?thesis by simp
    qed
    show "[85] = slice [85] (offset ?c) (js_add (offset ?c) (Fin 2))"
      by (simp add: slice_def)
    show "?res = Object_fromEntries
           (map (\<lambda>key. (key, case obj_get ?res key of Some v \<Rightarrow> v | None \<Rightarrow> VUndefined))
              (filter (\<lambda>key. \<not> startsWith key ''//'') (Object_keys ?field)))"
      by (simp add: startsWith_def Object_keys_def obj_get_def
           Object_fromEntries_def is_array_index_def is_digit_def)
  qed (simp_all add: js_sub_def)
  then have bits: "exec [85] (BitfieldP ?field None None) ?c
      = Inr (VObject ?res, Ctx Big None (Fin 2) [])"
    by (simp add: set_offset_def)
  have word: "exec [104, 105] (u32 None) ?c = Inl RangeError"
    by (simp add: decode_defs)
  have flag: "exec [] BoolP ?c = Inl RangeError"
    by (simp add: decode_defs)
  from str bits word flag show ?thesis by simp
qed

section \<open>The direction of the offset\<close>

lemma js_le_trans: "js_le a b \<Longrightarrow> js_le b c \<Longrightarrow> js_le a c"
  by (cases a; cases b; cases c) simp_all

lemma bounded_below_le: "bounded_below a \<Longrightarrow> js_le a b \<Longrightarrow> bounded_below b"
  unfolding bounded_below_def by (cases a; cases b) simp_all

lemma js_le_self: "bounded_below a \<Longrightarrow> js_le a a"
  by (simp add: bounded_below_def)

lemma js_le_add: "bounded_below a \<Longrightarrow> js_le (Fin 0) s \<Longrightarrow> js_le a (js_add a s)"
  unfolding bounded_below_def by (cases a; cases s) simp_all

lemma advances_refl: "advances c c"
  by (simp add: advances_def js_le_self)

lemma advances_trans: "advances a b \<Longrightarrow> advances b c \<Longrightarrow> advances a c"
  unfolding advances_def by (blast intro: js_le_trans bounded_below_le)

lemma advances_offsets:
  "offset a' = offset a \<Longrightarrow> offset b' = offset b \<Longrightarrow> advances a b \<Longrightarrow> advances a' b'"
  by (simp add: advances_def)

lemma advances_add: "js_le (Fin 0) s \<Longrightarrow> advances c (set_offset (js_add (offset c) s) c)"
  by (simp add: advances_def js_le_add)

lemma advances_to: "js_le (offset c) n \<Longrightarrow> advances c (set_offset n c)"
  by (simp add: advances_def)

lemma bitfield_advances:
  assumes "js_le (Fin 0) (byte_size field)"
    and "bitfield_handler rnd field oe ofi dv c = Inr (v, c')"
  shows "advances c c'"
proof (cases "list_all (\<lambda>(key, d). has_size d) (Object_fromEntries field)")
  case True
  from bitfield_handler_offset [OF True, of rnd oe ofi dv c] assms(2)
  have "c' = set_offset (js_add (offset c) (byte_size field)) c"
    by auto
  with assms(1) show ?thesis
    by (simp add: advances_add)
next
  case False
  from bitfield_handler_TypeError [OF False, of rnd oe ofi dv c] assms(2) show ?thesis
    by simp
qed

lemma forward_advances_all:
  "forward dv p c \<longrightarrow> (\<forall>v c'. exec dv p c = Inr (v, c') \<longrightarrow> advances c c')"
  "forward_map dv ps c \<longrightarrow> (\<forall>vs c'. exec_map dv ps c = Inr (vs, c') \<longrightarrow> advances c c')"
  "forward_forEach dv es c \<longrightarrow> (\<forall>c'. exec_forEach dv es c = Inr c' \<longrightarrow> advances c c')"
  "forward_from dv p n c \<longrightarrow> (\<forall>vs c'. exec_from dv p n c = Inr (vs, c') \<longrightarrow> advances c c')"
proof (induction dv p c and dv ps c and dv es c and dv p n c rule: exec_induct)
  case (Typed dv k le c)
  show ?case
    by (auto simp: createTypedHandler_def Let_def advances_add split: sum.splits)
next
  case (Bool dv c)
  show ?case
    by (auto simp: bool_handler_def advances_add split: sum.splits)
next
  case (String dv sz decode c)
  show ?case
    by (auto simp: string_handler_def Let_def advances_add split: sum.splits)
next
  case (Array dv p sz c)
  then show ?case
    by (auto simp: Let_def split: sum.splits)
next
  case (Bitfield dv field opt_endian opt_first c)
  show ?case
    using bitfield_advances [of field "[]" opt_endian opt_first dv c]
    by auto
next
  case (Ternary dv condition t f c)
  then show ?case
    by (auto simp: advances_refl split: option.splits if_splits)
next
  case (Convert dv p fn c)
  then show ?case
    by (auto split: sum.splits)
next
  case (Seek dv off c)
  show ?case
    by (auto simp: seek_handler_def advances_to)
next
  case (Peek dv off p c)
  show ?case
    by (auto simp: Let_def advances_def js_le_self split: sum.splits)
next
  case (Skip dv off c)
  show ?case
    by (auto simp: skip_handler_def advances_add)
next
  case (Seq dv ps c)
  then show ?case
    by (auto split: sum.splits)
next
  case (Obj dv entries c)
  show ?case
  proof (intro impI allI)
    fix v c'
    assume fwd: "forward dv (ObjP entries) c" and run: "exec dv (ObjP entries) c = Inr (v, c')"
    let ?child = "Ctx (endian c) (Some c) (offset c) []"
    from run obtain d where
      loop: "exec_forEach dv (Object_fromEntries entries) ?child = Inr d"
      and c': "c' = set_offset (offset d) c"
      by (auto split: sum.splits)
    from fwd have "forward_forEach dv (Object_fromEntries entries) ?child"
      by simp
    with Obj loop have "advances ?child d"
      by blast
    then show "advances c c'"
      by (rule advances_offsets [rotated 2]) (simp_all add: c')
  qed
next
  case (Lit dv v c)
  show ?case by (simp add: advances_refl)
next
  case (map_Nil dv c)
  show ?case by (simp add: advances_refl)
next
  case (map_Cons dv pat ps c)
  then show ?case
    by (auto split: sum.splits intro: advances_trans)
next
  case (forEach_Nil dv c)
  show ?case by (simp add: advances_refl)
next
  case (forEach_Cons dv key pat entries c)
  show ?case
  proof (intro impI allI)
    fix c'
    assume fwd: "forward_forEach dv ((key, pat) # entries) c"
      and run: "exec_forEach dv ((key, pat) # entries) c = Inr c'"
    from run obtain r c1 where
      first: "exec dv pat c = Inr (r, c1)"
      and rest: "exec_forEach dv entries (store key r c1) = Inr c'"
      by (auto split: sum.splits)
    from fwd first have "forward dv pat c" and "forward_forEach dv entries (store key r c1)"
      by simp_all
    with forEach_Cons first rest have "advances c c1" and "advances (store key r c1) c'"
      by blast+
    from this(2) have "advances c1 c'"
      by (rule advances_offsets [rotated 2]) simp_all
    with \<open>advances c c1\<close> show "advances c c'"
      by (rule advances_trans)
  qed
next
  case (from_0 dv p c)
  show ?case by (simp add: advances_refl)
next
  case (from_Suc dv p n c)
  then show ?case
    by (auto split: sum.splits intro: advances_trans)
qed

lemma ascii_Nil: "ascii [] = Inr []"
  by (simp add: ascii_def)

text \<open>
  Claim C7 says that within one decode the offset only increases, except inside \<^verbatim>\<open>peek\<close>.
  But \<^verbatim>\<open>seek\<close> assigns the offset, and \<^verbatim>\<open>skip\<close>, \<^verbatim>\<open>string\<close> and \<^verbatim>\<open>bitfield\<close> add a number to it
  that they do not look at. \<^verbatim>\<open>seek(0)\<close> at offset 2 sets the offset to 0, \<^verbatim>\<open>skip(-1)\<close> at
  offset 2 sets it to 1, and \<^verbatim>\<open>[u8(), seek(0), u8()]\<close> reads the first byte twice in one
  decode, with no \<^verbatim>\<open>peek\<close>. \<^verbatim>\<open>string(-1)\<close> and the bitfield \<^verbatim>\<open>{a: -8}\<close> at offset 2 set the
  offset to 1. A size that is \<^verbatim>\<open>undefined\<close> makes the offset NaN, and the next read is at
  position 0: \<^verbatim>\<open>[u8(), string((ctx) => ctx.data.n), u8()]\<close> on the bytes 1, 2 returns
  \<^verbatim>\<open>[1, '', 1]\<close>.
\<close>

theorem offset_decreases_counterexample:
  "exec [1, 2] (SeekP (Num (Fin 0))) (Ctx Big None (Fin 2) [])
       = Inr (VUndefined, Ctx Big None (Fin 0) [])
   \<and> exec [1, 2] (SkipP (Fin (- 1))) (Ctx Big None (Fin 2) [])
       = Inr (VUndefined, Ctx Big None (Fin 1) [])
   \<and> Binpat_exec (SeqP [u8, SeekP (Num (Fin 0)), u8]) None [1, 2]
       = Inr (VArray [VNumber 1, VUndefined, VNumber 1])
   \<and> exec [1, 2] (StringP (Num (Fin (- 1))) ascii) (Ctx Big None (Fin 2) [])
       = Inr (VString [], Ctx Big None (Fin 1) [])
   \<and> exec [1, 2] (BitfieldP [(''a'', Number (Fin (- 8)))] None None) (Ctx Big None (Fin 2) [])
       = Inr (VObject [(''a'', VNaN)], Ctx Big None (Fin 1) [])
   \<and> Binpat_exec (SeqP [u8, StringP (Fn (data_number ''n'')) ascii, u8]) None [1, 2]
       = Inr (VArray [VNumber 1, VString [], VNumber 1])"
proof -
  have seek: "exec [1, 2] (SeekP (Num (Fin 0))) (Ctx Big None (Fin 2) [])
       = Inr (VUndefined, Ctx Big None (Fin 0) [])"
    by (simp add: decode_defs)
  have skip: "exec [1, 2] (SkipP (Fin (- 1))) (Ctx Big None (Fin 2) [])
       = Inr (VUndefined, Ctx Big None (Fin 1) [])"
    by (simp add: decode_defs)
  have twice: "Binpat_exec (SeqP [u8, SeekP (Num (Fin 0)), u8]) None [1, 2]
       = Inr (VArray [VNumber 1, VUndefined, VNumber 1])"
    by (simp add: decode_defs)
  have str: "exec [1, 2] (StringP (Num (Fin (- 1))) ascii) (Ctx Big None (Fin 2) [])
       = Inr (VString [], Ctx Big None (Fin 1) [])"
    by (simp add: string_handler_def slice_def ascii_Nil set_offset_def)
  let ?c = "Ctx Big None (Fin 2) []"
  let ?field = "[(''a'', Number (Fin (- 8)))]"
  let ?kvs = "[(''a'', TypeU, Fin (- 8))]"
  have entries: "Object_fromEntries ?field = ?field"
    by (simp add: Object_fromEntries_def)
  have "bitfield_handler [] ?field None None [1, 2] ?c
      = Inr (VObject [(''a'', VNaN)], set_offset (js_add (offset ?c) (Fin (- 1))) ?c)"
  proof (rule bitfield_handler_steps [where endian' = Big and first' = MSb
        and bitSize = "Fin (- 8)" and endPadding = "Fin 0" and kvs_a = ?kvs and kvs_b = ?kvs
        and kvs = ?kvs and bytes_a = "[]" and bytes = "[]" and content = "[]"
        and result = "[(''a'', VNaN)]" and fld = ?field])
    show "list_all (\<lambda>(key, d). has_size d) (Object_fromEntries ?field)"
      by (simp add: entries)
    show "?field = Object_fromEntries ?field"
      by (simp add: entries)
    show "[(''a'', VNaN)] = Object_fromEntries (take_fields ?kvs [])"
      by (simp add: take_fields_Cons startsWith_def parseInt2_def slice_def
          Object_fromEntries_def del: take_fields.simps(2))
    show "[] = slice [1, 2 :: byte] (offset ?c) (js_add (offset ?c) (Fin (- 1)))"
      by (simp add: slice_def)
    show "[(''a'', VNaN)] = Object_fromEntries
           (map (\<lambda>key. (key, case obj_get [(''a'', VNaN)] key of Some v \<Rightarrow> v | None \<Rightarrow> VUndefined))
              (filter (\<lambda>key. \<not> startsWith key ''//'') (Object_keys ?field)))"
      by (simp add: startsWith_def Object_keys_def obj_get_def Object_fromEntries_def)
  qed (simp_all add: js_sub_def)
  then have bits: "exec [1, 2] (BitfieldP ?field None None) ?c
       = Inr (VObject [(''a'', VNaN)], Ctx Big None (Fin 1) [])"
    by (simp add: set_offset_def)
  have missing: "data_number ''n'' (Ctx Big None (Fin 1) []) = Undefined"
    by (simp add: data_number_def obj_get_def)
  have restart: "Binpat_exec (SeqP [u8, StringP (Fn (data_number ''n'')) ascii, u8]) None [1, 2]
       = Inr (VArray [VNumber 1, VString [], VNumber 1])"
    by (simp add: decode_defs string_handler_def missing slice_def ascii_Nil)
  from seek skip twice str bits restart show ?thesis by simp
qed

text \<open>
  Claim C7, amended. Take the run of a pattern that starts at an offset that is an integer
  or plus infinity (a decode starts at offset 0), and in which, outside the pattern of a
  \<^verbatim>\<open>peek\<close>, every \<^verbatim>\<open>seek\<close> has a target that is not before the offset at that moment, every
  \<^verbatim>\<open>skip\<close> has an amount that is not negative, and every string has a size, and every
  bitfield a size in bytes, that is not negative (in JavaScript's comparison, so none of
  them is NaN or \<^verbatim>\<open>undefined\<close>). If the run completes, the offset has not decreased: the
  offset after it is a number that is not before the offset at the start. A \<^verbatim>\<open>peek\<close> may
  hold any pattern: the offset after it is the offset before it. \<^verbatim>\<open>seek\<close> sets the offset
  to its target and \<^verbatim>\<open>skip\<close> adds its argument to the offset, whatever the current offset
  is, so either can move the offset back.
\<close>

theorem offset_never_decreases:
  "(forward dv p c \<and> bounded_below (offset c) \<and> exec dv p c = Inr (v, c')
      \<longrightarrow> js_le (offset c) (offset c'))
   \<and> (exec dv (PeekP target q) c = Inr (v, c') \<longrightarrow> offset c' = offset c)
   \<and> exec dv (SeekP off) c = Inr (VUndefined, set_offset (resolve off c) c)
   \<and> exec dv (SkipP n) c = Inr (VUndefined, set_offset (js_add (offset c) n) c)"
proof -
  have "js_le (offset c) (offset c')"
    if "forward dv p c" "bounded_below (offset c)" "exec dv p c = Inr (v, c')"
    using that forward_advances_all(1) [of dv p c] by (auto simp: advances_def)
  moreover have "offset c' = offset c" if "exec dv (PeekP target q) c = Inr (v, c')"
    using that by (auto simp: Let_def split: sum.splits)
  ultimately show ?thesis
    by (auto simp: seek_handler_def skip_handler_def)
qed

theorem offset_never_decreases_witness:
  "forward [1, 2, 3, 4]
       (SeqP [u8, SkipP (Fin 1), PeekP (Num (Fin 0)) (SeqP [SeekP (Num (Fin 0)), u8]),
              SeekP (Num (Fin 3)), u8])
       (Ctx Big None (Fin 0) [])
   \<and> bounded_below (offset (Ctx Big None (Fin 0) []))
   \<and> exec [1, 2, 3, 4]
       (SeqP [u8, SkipP (Fin 1), PeekP (Num (Fin 0)) (SeqP [SeekP (Num (Fin 0)), u8]),
              SeekP (Num (Fin 3)), u8])
       (Ctx Big None (Fin 0) [])
       = Inr (VArray [VNumber 1, VUndefined, VArray [VUndefined, VNumber 1], VUndefined,
                VNumber 4],
              Ctx Big None (Fin 4) [])
   \<and> js_le (offset (Ctx Big None (Fin 0) [])) (offset (Ctx Big None (Fin 4) []))"
proof -
  let ?p = "SeqP [u8, SkipP (Fin 1), PeekP (Num (Fin 0)) (SeqP [SeekP (Num (Fin 0)), u8]),
              SeekP (Num (Fin 3)), u8]"
  let ?v = "VArray [VNumber 1, VUndefined, VArray [VUndefined, VNumber 1], VUndefined,
                VNumber 4]"
  have fwd: "forward [1, 2, 3, 4] ?p (Ctx Big None (Fin 0) [])"
    by (simp add: decode_defs byte_size_def)
  have run: "exec [1, 2, 3, 4] ?p (Ctx Big None (Fin 0) []) = Inr (?v, Ctx Big None (Fin 4) [])"
    by (simp add: decode_defs)
  have start: "bounded_below (offset (Ctx Big None (Fin 0) []))"
    by (simp add: bounded_below_def)
  from offset_never_decreases
    [of "[1, 2, 3, 4]" ?p "Ctx Big None (Fin 0) []" ?v "Ctx Big None (Fin 4) []"]
  have "js_le (offset (Ctx Big None (Fin 0) [])) (offset (Ctx Big None (Fin 4) []))"
    using fwd run start by blast
  with fwd run start show ?thesis by blast
qed

section \<open>The order of the fields of an object pattern\<close>

lemma obj_set_new:
  "k \<notin> fst ` set ob \<Longrightarrow> \<not> is_array_index k \<Longrightarrow> obj_set ob k v = ob @ [(k, v)]"
  by (induction ob k v rule: obj_set.induct) auto

lemma foldl_obj_set_new:
  "distinct (map fst ob @ map fst kvs) \<Longrightarrow> \<forall>k \<in> fst ` set kvs. \<not> is_array_index k \<Longrightarrow>
   foldl (\<lambda>ob (k, v). obj_set ob k v) ob kvs = ob @ kvs"
proof (induction kvs arbitrary: ob)
  case Nil
  then show ?case by simp
next
  case (Cons kv kvs)
  obtain k v where kv: "kv = (k, v)" by (cases kv)
  from Cons.prems kv have new: "obj_set ob k v = ob @ [(k, v)]"
    by (intro obj_set_new) auto
  from Cons.prems kv have "distinct (map fst (ob @ [(k, v)]) @ map fst kvs)"
    by auto
  moreover from Cons.prems have "\<forall>k \<in> fst ` set kvs. \<not> is_array_index k"
    by simp
  ultimately have "foldl (\<lambda>ob (k, v). obj_set ob k v) (ob @ [(k, v)]) kvs = (ob @ [(k, v)]) @ kvs"
    by (rule Cons.IH)
  with new kv show ?case by simp
qed

lemma Object_fromEntries_plain:
  "distinct (map fst kvs) \<Longrightarrow> \<forall>k \<in> fst ` set kvs. \<not> is_array_index k \<Longrightarrow>
   Object_fromEntries kvs = kvs"
  using foldl_obj_set_new [of "[]" kvs] by (simp add: Object_fromEntries_def)

lemma obj_spread_plain:
  assumes "distinct (map fst a @ map fst (own_entries r))"
    and "\<forall>k \<in> fst ` set a. \<not> is_array_index k"
    and "\<forall>k \<in> fst ` set (own_entries r). \<not> is_array_index k"
  shows "obj_spread a r = a @ own_entries r"
proof -
  from assms have "Object_fromEntries a = a"
    by (intro Object_fromEntries_plain) auto
  with assms foldl_obj_set_new [of a "own_entries r"] show ?thesis
    by (simp add: obj_spread_def)
qed

lemma data_store_plain:
  assumes "distinct (map fst (data c) @ map fst (contribution x))"
    and "\<forall>k \<in> fst ` set (data c). \<not> is_array_index k"
    and "\<forall>k \<in> fst ` set (contribution x). \<not> is_array_index k"
    and "v_key x = key" and "v_result x = r"
  shows "data (store key r c) = data c @ contribution x"
proof (cases "startsWith key ''...''")
  case True
  with assms have "contribution x = own_entries r"
    by (simp add: contribution_def)
  with assms True show ?thesis
    by (simp add: store_def obj_spread_plain)
next
  case False
  show ?thesis
  proof (cases "startsWith key ''//''")
    case True
    with False assms show ?thesis
      by (simp add: store_def contribution_def)
  next
    case omitted: False
    with False assms have "contribution x = [(key, r)]"
      by (simp add: contribution_def)
    with assms False omitted show ?thesis
      by (simp add: store_def obj_set_new)
  qed
qed

lemma exec_forEach_Cons_cases:
  assumes "exec_forEach dv ((key, pat) # es) c = Inr c'"
  obtains r c1 where "exec dv pat c = Inr (r, c1)"
    and "exec_forEach dv es (store key r c1) = Inr c'"
    and "visits dv ((key, pat) # es) c
         = \<lparr>v_key = key, v_before = c, v_result = r, v_after = c1\<rparr>
             # visits dv es (store key r c1)"
  using assms by (auto split: sum.splits)

lemma visits_keys:
  "exec_forEach dv es c = Inr c' \<Longrightarrow> map v_key (visits dv es c) = map fst es"
proof (induction es arbitrary: c)
  case Nil
  then show ?case by simp
next
  case (Cons kp es)
  obtain key pat where kp: "kp = (key, pat)" by (cases kp)
  from Cons.prems(1) kp have "exec_forEach dv ((key, pat) # es) c = Inr c'" by simp
  then obtain r c1 where
    first: "exec dv pat c = Inr (r, c1)"
    and rest: "exec_forEach dv es (store key r c1) = Inr c'"
    and vs: "visits dv (kp # es) c
       = \<lparr>v_key = key, v_before = c, v_result = r, v_after = c1\<rparr> # visits dv es (store key r c1)"
    unfolding kp by (rule exec_forEach_Cons_cases)
  with Cons.IH [OF rest] kp show ?case by simp
qed

lemma visits_length:
  "exec_forEach dv es c = Inr c' \<Longrightarrow> length (visits dv es c) = length es"
  using visits_keys [of dv es c c'] by (metis length_map)

lemma visits_exec:
  "exec_forEach dv es c = Inr c' \<Longrightarrow> i < length es \<Longrightarrow>
   exec dv (snd (es ! i)) (v_before (visits dv es c ! i))
     = Inr (v_result (visits dv es c ! i), v_after (visits dv es c ! i))"
proof (induction es arbitrary: c i)
  case Nil
  then show ?case by simp
next
  case (Cons kp es)
  obtain key pat where kp: "kp = (key, pat)" by (cases kp)
  from Cons.prems(1) kp have "exec_forEach dv ((key, pat) # es) c = Inr c'" by simp
  then obtain r c1 where
    first: "exec dv pat c = Inr (r, c1)"
    and rest: "exec_forEach dv es (store key r c1) = Inr c'"
    and vs: "visits dv (kp # es) c
       = \<lparr>v_key = key, v_before = c, v_result = r, v_after = c1\<rparr> # visits dv es (store key r c1)"
    unfolding kp by (rule exec_forEach_Cons_cases)
  show ?case
  proof (cases i)
    case 0
    with first vs kp show ?thesis by simp
  next
    case (Suc j)
    with Cons.prems have "j < length es" by simp
    from Cons.IH [OF rest this] Suc vs show ?thesis by simp
  qed
qed

lemma visits_offsets:
  "exec_forEach dv es c = Inr c' \<Longrightarrow> i < length es \<Longrightarrow>
   offset (v_before (visits dv es c ! i))
     = (if i = 0 then offset c else offset (v_after (visits dv es c ! (i - 1))))"
proof (induction es arbitrary: c i)
  case Nil
  then show ?case by simp
next
  case (Cons kp es)
  obtain key pat where kp: "kp = (key, pat)" by (cases kp)
  from Cons.prems(1) kp have "exec_forEach dv ((key, pat) # es) c = Inr c'" by simp
  then obtain r c1 where
    first: "exec dv pat c = Inr (r, c1)"
    and rest: "exec_forEach dv es (store key r c1) = Inr c'"
    and vs: "visits dv (kp # es) c
       = \<lparr>v_key = key, v_before = c, v_result = r, v_after = c1\<rparr> # visits dv es (store key r c1)"
    unfolding kp by (rule exec_forEach_Cons_cases)
  show ?case
  proof (cases i)
    case 0
    with vs show ?thesis by simp
  next
    case (Suc j)
    with Cons.prems have "j < length es" by simp
    from Cons.IH [OF rest this] Suc vs show ?thesis
      by (cases j) simp_all
  qed
qed

lemma visits_final_offset:
  "exec_forEach dv es c = Inr c' \<Longrightarrow>
   offset c' = (if es = [] then offset c else offset (v_after (last (visits dv es c))))"
proof (induction es arbitrary: c)
  case Nil
  then show ?case by simp
next
  case (Cons kp es)
  obtain key pat where kp: "kp = (key, pat)" by (cases kp)
  from Cons.prems(1) kp have "exec_forEach dv ((key, pat) # es) c = Inr c'" by simp
  then obtain r c1 where
    first: "exec dv pat c = Inr (r, c1)"
    and rest: "exec_forEach dv es (store key r c1) = Inr c'"
    and vs: "visits dv (kp # es) c
       = \<lparr>v_key = key, v_before = c, v_result = r, v_after = c1\<rparr> # visits dv es (store key r c1)"
    unfolding kp by (rule exec_forEach_Cons_cases)
  from visits_length [OF rest] have "visits dv es (store key r c1) = [] \<longleftrightarrow> es = []"
    by (metis length_0_conv)
  with Cons.IH [OF rest] vs show ?case by simp
qed

lemma visits_data:
  assumes "exec_forEach dv es c = Inr c'"
    and "distinct (map fst (data c) @ map fst (concat (map contribution (visits dv es c))))"
    and "\<forall>k \<in> fst ` set (data c). \<not> is_array_index k"
    and "\<forall>k \<in> fst ` set (concat (map contribution (visits dv es c))). \<not> is_array_index k"
  shows "data c' = data c @ concat (map contribution (visits dv es c))"
  using assms
proof (induction es arbitrary: c)
  case Nil
  then show ?case by simp
next
  case (Cons kp es)
  obtain key pat where kp: "kp = (key, pat)" by (cases kp)
  from Cons.prems(1) kp have "exec_forEach dv ((key, pat) # es) c = Inr c'" by simp
  then obtain r c1 where
    first: "exec dv pat c = Inr (r, c1)"
    and rest: "exec_forEach dv es (store key r c1) = Inr c'"
    and vs: "visits dv (kp # es) c
       = \<lparr>v_key = key, v_before = c, v_result = r, v_after = c1\<rparr> # visits dv es (store key r c1)"
    unfolding kp by (rule exec_forEach_Cons_cases)
  let ?x = "\<lparr>v_key = key, v_before = c, v_result = r, v_after = c1\<rparr>"
  let ?c2 = "store key r c1"
  from exec_frame [OF first] have same: "data c1 = data c"
    by (simp add: same_frame_def)
  have stored: "data ?c2 = data c @ contribution ?x"
    using Cons.prems(2,3,4) vs same
    by (subst data_store_plain [where x = ?x]) auto
  have "data c' = data ?c2 @ concat (map contribution (visits dv es ?c2))"
  proof (rule Cons.IH [OF rest])
    show "distinct (map fst (data ?c2) @ map fst (concat (map contribution (visits dv es ?c2))))"
      using Cons.prems(2) vs stored by simp
    show "\<forall>k \<in> fst ` set (data ?c2). \<not> is_array_index k"
      using Cons.prems(3,4) vs stored by auto
    show "\<forall>k \<in> fst ` set (concat (map contribution (visits dv es ?c2))). \<not> is_array_index k"
      using Cons.prems(4) vs by auto
  qed
  with stored vs show ?case by simp
qed

text \<open>
  Claim C3 says that the fields of every object pattern are executed in declaration order
  and that the keys of the result are in declaration order, with the entries of a spread
  value in the place of the spread key. Two things stand against it. The loop runs over
  \<^verbatim>\<open>Object.entries(pattern)\<close>, and an object lists its array-index keys first: in
  \<^verbatim>\<open>{b: u8(), 1: u8()}\<close> on the bytes 10, 20 the field \<^verbatim>\<open>1\<close> is run first and takes the byte
  10, and the result is \<^verbatim>\<open>{1: 10, b: 20}\<close>. And a key that is already in the data keeps its
  place when it is set again: in \<^verbatim>\<open>{a: u8(), [spread()]: {b: u8(), a: u8()}}\<close> on 10, 20, 30
  the spread value is \<^verbatim>\<open>{b: 20, a: 30}\<close> and the result is \<^verbatim>\<open>{a: 30, b: 20}\<close>, not the entries
  of the spread value in their own order.
\<close>

theorem structure_order_counterexample:
  "Binpat_exec (ObjP [(''b'', u8), (''1'', u8)]) None [10, 20]
     = Inr (VObject [(''1'', VNumber 10), (''b'', VNumber 20)])
   \<and> Binpat_exec (ObjP [(''a'', u8), (spread ''7e'', ObjP [(''b'', u8), (''a'', u8)])]) None
         [10, 20, 30]
     = Inr (VObject [(''a'', VNumber 30), (''b'', VNumber 20)])"
  by (simp add: decode_defs spread_def dec_value_def)

text \<open>
  Claim C3, amended. Take an object pattern that completes, whose keys as written are
  pairwise distinct and not array indices, and such that the keys that come into the
  result (the keys of the fields that are not marked, and the keys of the values decoded
  under spread keys) are pairwise distinct and not array indices. Then
  \<^item> every field is visited, once, in declaration order;
  \<^item> each visit is the execution of the field's own pattern, and its context has the offset
    of the calling context for the first field and the offset that the previous field's
    pattern left for every other field, whether the previous field is omitted or not;
  \<^item> the result lists, in declaration order: nothing for a key that starts with two slashes,
    the entries of the decoded value, in their own order, for a key that starts with three
    dots, and the key with its decoded value for any other key;
  \<^item> the offset of the calling context becomes the offset that the last field left.
\<close>

theorem structure_fields_in_order:
  fixes dv entries c
  defines "vs \<equiv> visits dv entries (Ctx (endian c) (Some c) (offset c) [])"
  assumes "exec dv (ObjP entries) c = Inr (v, c')"
    and "distinct (map fst entries)"
    and "\<forall>k \<in> fst ` set entries. \<not> is_array_index k"
    and "distinct (map fst (concat (map contribution vs)))"
    and "\<forall>k \<in> fst ` set (concat (map contribution vs)). \<not> is_array_index k"
  shows "map v_key vs = map fst entries
       \<and> (\<forall>i < length entries.
            exec dv (snd (entries ! i)) (v_before (vs ! i))
              = Inr (v_result (vs ! i), v_after (vs ! i)))
       \<and> (\<forall>i < length entries.
            offset (v_before (vs ! i))
              = (if i = 0 then offset c else offset (v_after (vs ! (i - 1)))))
       \<and> v = VObject (concat (map contribution vs))
       \<and> offset c' = (if entries = [] then offset c else offset (v_after (last vs)))"
proof -
  let ?child = "Ctx (endian c) (Some c) (offset c) []"
  from assms(3,4) have plain: "Object_fromEntries entries = entries"
    by (rule Object_fromEntries_plain)
  with assms(2) obtain d where
    loop: "exec_forEach dv entries ?child = Inr d"
    and v: "v = VObject (data d)" and c': "c' = set_offset (offset d) c"
    by (auto split: sum.splits)
  have keys: "map v_key vs = map fst entries"
    unfolding vs_def by (rule visits_keys [OF loop])
  have runs: "\<forall>i < length entries.
      exec dv (snd (entries ! i)) (v_before (vs ! i)) = Inr (v_result (vs ! i), v_after (vs ! i))"
    unfolding vs_def using visits_exec [OF loop] by blast
  have offsets: "\<forall>i < length entries.
      offset (v_before (vs ! i)) = (if i = 0 then offset c else offset (v_after (vs ! (i - 1))))"
    unfolding vs_def using visits_offsets [OF loop] by simp
  have "data d = data ?child @ concat (map contribution vs)"
    unfolding vs_def
    by (rule visits_data [OF loop]) (use assms(5,6) in \<open>simp_all add: vs_def\<close>)
  with v have result: "v = VObject (concat (map contribution vs))"
    by simp
  have final: "offset c' = (if entries = [] then offset c else offset (v_after (last vs)))"
    unfolding vs_def using visits_final_offset [OF loop] c' by simp
  from keys runs offsets result final show ?thesis by blast
qed

theorem structure_fields_example:
  "exec [1, 2, 3, 4, 5]
       (ObjP [(''foo'', u8), (omit ''9a'', u8), (spread ''4c'', ObjP [(''x'', u8), (''y'', u8)]),
              (''baz'', u8)])
       (Ctx Big None (Fin 0) [])
     = Inr (VObject [(''foo'', VNumber 1), (''x'', VNumber 3), (''y'', VNumber 4),
              (''baz'', VNumber 5)],
            Ctx Big None (Fin 5) [])
   \<and> map v_key (visits [1, 2, 3, 4, 5]
         [(''foo'', u8), (omit ''9a'', u8), (spread ''4c'', ObjP [(''x'', u8), (''y'', u8)]),
          (''baz'', u8)]
         (Ctx Big (Some (Ctx Big None (Fin 0) [])) (Fin 0) []))
     = [''foo'', ''//9a'', ''...4c'', ''baz'']"
proof -
  let ?dv = "[1, 2, 3, 4, 5] :: byte list"
  let ?entries = "[(''foo'', u8), (omit ''9a'', u8),
      (spread ''4c'', ObjP [(''x'', u8), (''y'', u8)]), (''baz'', u8)]"
  let ?c = "Ctx Big None (Fin 0) []"
  let ?out = "[(''foo'', VNumber 1), (''x'', VNumber 3), (''y'', VNumber 4), (''baz'', VNumber 5)]"
  have run: "exec ?dv (ObjP ?entries) ?c = Inr (VObject ?out, Ctx Big None (Fin 5) [])"
    by (simp add: decode_defs omit_def spread_def)
  have contributions:
    "concat (map contribution (visits ?dv ?entries (Ctx (endian ?c) (Some ?c) (offset ?c) [])))
       = ?out"
    by (simp add: decode_defs omit_def spread_def contribution_def)
  have "map v_key (visits ?dv ?entries (Ctx (endian ?c) (Some ?c) (offset ?c) []))
      = map fst ?entries"
  proof (rule structure_fields_in_order [OF run, THEN conjunct1])
    show "distinct (map fst ?entries)"
      by (simp add: omit_def spread_def)
    show "\<forall>k \<in> fst ` set ?entries. \<not> is_array_index k"
      by (simp add: omit_def spread_def is_array_index_def is_digit_def)
    show "distinct (map fst (concat (map contribution
        (visits ?dv ?entries (Ctx (endian ?c) (Some ?c) (offset ?c) [])))))"
      unfolding contributions by simp
    show "\<forall>k \<in> fst ` set (concat (map contribution
        (visits ?dv ?entries (Ctx (endian ?c) (Some ?c) (offset ?c) [])))). \<not> is_array_index k"
      unfolding contributions by (simp add: is_array_index_def is_digit_def)
  qed
  with run show ?thesis
    by (simp add: omit_def spread_def)
qed


end
